theory Spec2Isabelle
  imports Main "HOL-Library.Word" "HOL-Library.AList"
begin

section \<open>The DHCP lease pool (package dhcp)\<close>

subsection \<open>Leases\<close>

text \<open>
  Instants of the wall clock (\<open>time.Time\<close>) and durations (\<open>time.Duration\<close>) are
  integers in one common unit. An address (\<open>net.IP\<close>) is an IPv4 address, a 32-bit word;
  \<open>IP.String()\<close>, the dotted quad, is one-to-one on these, so the address itself stands
  for the key that the source derives from it.
\<close>

type_synonym time = int
type_synonym ip = "32 word"

record Lease =
  Nic :: string
  IP :: ip
  FirstAssigned :: time
  LastAssigned :: time
  ExpireTime :: time

text \<open>
  \<open>newLease\<close> reads the clock itself (\<open>now := time.Now()\<close>); that reading is the
  last argument here. \<open>firstAssigned\<close> is the source's pointer: \<open>None\<close> for \<open>nil\<close>.
\<close>

definition newLease :: "string \<Rightarrow> ip \<Rightarrow> int \<Rightarrow> time option \<Rightarrow> time \<Rightarrow> Lease" where
  "newLease nic ip expireDuration firstAssigned now =
     \<lparr>Nic = nic, IP = ip,
      FirstAssigned = (case firstAssigned of None \<Rightarrow> now | Some t \<Rightarrow> t),
      LastAssigned = now,
      ExpireTime = now + expireDuration\<rparr>"

record LeasePool =
  etcdDir :: string
  startIP :: ip
  rangeLen :: int
  expireDuration :: int

subsection \<open>The etcd keys API, as far as the pool uses it\<close>

text \<open>
  The value of a node is a text. \<open>encoding/json\<close> is not part of the repository: a text
  is represented by what \<open>json.Unmarshal\<close> makes of it, a lease or a failure, and
  \<open>json.Marshal\<close> of a lease is the text that decodes to it. Marshalling does not fail
  on the leases that \<open>newLease\<close> builds (an IPv4 address, instants of the clock), so
  \<open>Store\<close> has no branch for it.
\<close>

datatype json_text = Json Lease | Garbage string

fun json_Unmarshal :: "json_text \<Rightarrow> Lease option" where
  "json_Unmarshal (Json lease) = Some lease"
| "json_Unmarshal (Garbage s) = None"

definition json_Marshal :: "Lease \<Rightarrow> json_text" where
  "json_Marshal lease = Json lease"

datatype etcd_error = ErrorCodeKeyNotFound | ErrorCodeNotFile | Unavailable

datatype error =
    ErrLeasePoolIsFull
  | ErrRefreshNoMatch
  | ErrFoundInvalidLease
  | Etcd etcd_error

text \<open>
  The store holds the subtree \<open><etcdDir>/leases\<close>: absent, or a directory of nodes, each
  a key (the last path component) and a value. \<open>faults\<close> is the fate of the requests to
  come, in order: \<open>True\<close> for a request that the store does not serve (unreachable,
  timed out after the two seconds of its context) and that changes nothing; once the
  list is used up every request is served.
\<close>

record etcd =
  leases_dir :: "(ip \<times> json_text) list option"
  faults :: "bool list"

definition next_request :: "etcd \<Rightarrow> bool \<times> etcd" where
  "next_request s =
     (case faults s of
        [] \<Rightarrow> (False, s)
      | f # fs \<Rightarrow> (f, s\<lparr>faults := fs\<rparr>))"

text \<open>\<open>Get(ctx, <etcdDir>/leases, Recursive)\<close>: the nodes of the directory.\<close>

definition etcd_Get :: "etcd \<Rightarrow> (etcd_error + (ip \<times> json_text) list) \<times> etcd" where
  "etcd_Get s =
     (case next_request s of
        (True, s') \<Rightarrow> (Inl Unavailable, s')
      | (False, s') \<Rightarrow>
          (case leases_dir s' of
             None \<Rightarrow> (Inl ErrorCodeKeyNotFound, s')
           | Some nodes \<Rightarrow> (Inr nodes, s')))"

text \<open>
  \<open>Set(ctx, <etcdDir>/leases/<ip>, data, nil)\<close>: writes the node, replacing the value of
  an existing key; etcd creates the missing parent directory.
\<close>

definition etcd_Set :: "ip \<Rightarrow> json_text \<Rightarrow> etcd \<Rightarrow> etcd_error option \<times> etcd" where
  "etcd_Set k v s =
     (case next_request s of
        (True, s') \<Rightarrow> (Some Unavailable, s')
      | (False, s') \<Rightarrow>
          (None, s'\<lparr>leases_dir :=
             Some (AList.update k v (case leases_dir s' of None \<Rightarrow> [] | Some nodes \<Rightarrow> nodes))\<rparr>))"

text \<open>\<open>Set(ctx, <etcdDir>/leases, "", Dir: true)\<close>: creates the empty directory.\<close>

definition etcd_SetDir :: "etcd \<Rightarrow> etcd_error option \<times> etcd" where
  "etcd_SetDir s =
     (case next_request s of
        (True, s') \<Rightarrow> (Some Unavailable, s')
      | (False, s') \<Rightarrow>
          (case leases_dir s' of
             None \<Rightarrow> (None, s'\<lparr>leases_dir := Some []\<rparr>)
           | Some nodes \<Rightarrow> (Some ErrorCodeNotFile, s')))"

text \<open>\<open>Delete(ctx, <etcdDir>/leases, Dir, Recursive)\<close>.\<close>

definition etcd_Delete :: "etcd \<Rightarrow> etcd_error option \<times> etcd" where
  "etcd_Delete s =
     (case next_request s of
        (True, s') \<Rightarrow> (Some Unavailable, s')
      | (False, s') \<Rightarrow>
          (case leases_dir s' of
             None \<Rightarrow> (Some ErrorCodeKeyNotFound, s')
           | Some nodes \<Rightarrow> (None, s'\<lparr>leases_dir := None\<rparr>)))"

subsection \<open>Go maps\<close>

text \<open>
  The map \<open>map[string]Lease\<close> is an association list with one entry per key
  (\<open>AList.update\<close> is \<open>m[k] = v\<close>, \<open>map_of\<close> the lookup). Go leaves the order in which
  \<open>range\<close> visits a map open, and changes it from one loop to the next. A loop over a map
  therefore takes a seed \<open>ks\<close>, a list of keys: the keys of the map named in \<open>ks\<close> are
  visited first, in the order of \<open>ks\<close>, then the others. Every seed gives an order that
  visits each entry once, and every such order comes from a seed (the order itself).
\<close>

definition go_range :: "'k list \<Rightarrow> ('k \<times> 'v) list \<Rightarrow> 'v list" where
  "go_range ks m =
     List.map_filter (map_of m) (remdups ks) @ map snd (filter (\<lambda>kv. fst kv \<notin> set ks) m)"

subsection \<open>The operations of the pool\<close>

text \<open>\<open>Store\<close> writes the lease under the key of its address.\<close>

definition Store :: "LeasePool \<Rightarrow> Lease \<Rightarrow> etcd \<Rightarrow> error option \<times> etcd" where
  "Store p lease s =
     (case etcd_Set (IP lease) (json_Marshal lease) s of
        (Some e, s') \<Rightarrow> (Some (Etcd e), s')
      | (None, s') \<Rightarrow> (None, s'))"

text \<open>The loop of \<open>Leases\<close> over \<open>response.Node.Nodes\<close>, filling the map \<open>leases\<close>.\<close>

fun Leases_nodes :: "(ip \<times> json_text) list \<Rightarrow> (ip \<times> Lease) list \<Rightarrow> error + (ip \<times> Lease) list" where
  "Leases_nodes [] leases = Inr leases"
| "Leases_nodes (node # nodes) leases =
     (case json_Unmarshal (snd node) of
        Some lease \<Rightarrow> Leases_nodes nodes (AList.update (IP lease) lease leases)
      | None \<Rightarrow> Inl ErrFoundInvalidLease)"

definition Leases :: "LeasePool \<Rightarrow> etcd \<Rightarrow> (error + (ip \<times> Lease) list) \<times> etcd" where
  "Leases p s =
     (case etcd_Get s of
        (Inl ErrorCodeKeyNotFound, s1) \<Rightarrow>
          (case etcd_SetDir s1 of
             (Some e, s2) \<Rightarrow> (Inl (Etcd e), s2)
           | (None, s2) \<Rightarrow> (Inr [], s2))
      | (Inl e, s1) \<Rightarrow> (Inl (Etcd e), s1)
      | (Inr nodes, s1) \<Rightarrow> (Leases_nodes nodes [], s1))"

definition Reset :: "LeasePool \<Rightarrow> etcd \<Rightarrow> error option \<times> etcd" where
  "Reset p s =
     (case etcd_Delete s of
        (Some ErrorCodeKeyNotFound, s') \<Rightarrow> (None, s')
      | (Some e, s') \<Rightarrow> (Some (Etcd e), s')
      | (None, s') \<Rightarrow> (None, s'))"

text \<open>
  \<open>dhcp4.IPAdd(start, add)\<close> adds \<open>uint32(add)\<close> to the address, modulo \<open>2^32\<close>. The
  counter \<open>i\<close> of the second loop of \<open>Assign\<close> runs over \<open>0, ..., rangeLen - 1\<close>.
\<close>

definition IPAdd :: "ip \<Rightarrow> nat \<Rightarrow> ip" where
  "IPAdd start add = start + of_nat add"

text \<open>
  \<open>Assign p nic ks stamp now\<close>: \<open>ks\<close> seeds the order of the loops over the map (only one
  of the two loops can find a lease, so one seed serves both), \<open>stamp\<close> is the clock as
  \<open>newLease\<close> reads it and \<open>now\<close> the clock read before the third loop. The result of
  \<open>p.Store\<close> is dropped in the first and the third loop, as in the source.
\<close>

definition Assign :: "LeasePool \<Rightarrow> string \<Rightarrow> ip list \<Rightarrow> time \<Rightarrow> time \<Rightarrow> etcd \<Rightarrow> (error + ip) \<times> etcd" where
  "Assign p nic ks stamp now s =
     (case Leases p s of
        (Inl err, s1) \<Rightarrow> (Inl err, s1)
      | (Inr leases, s1) \<Rightarrow>
          (case find (\<lambda>lease. Nic lease = nic) (go_range ks leases) of
             Some lease \<Rightarrow>
               (Inr (IP lease),
                snd (Store p (newLease nic (IP lease) (expireDuration p) (Some (FirstAssigned lease)) stamp) s1))
           | None \<Rightarrow>
               (case find (\<lambda>i. map_of leases (IPAdd (startIP p) i) = None) [0 ..< nat (rangeLen p)] of
                  Some i \<Rightarrow>
                    (case Store p (newLease nic (IPAdd (startIP p) i) (expireDuration p) None stamp) s1 of
                       (Some err, s2) \<Rightarrow> (Inl err, s2)
                     | (None, s2) \<Rightarrow> (Inr (IPAdd (startIP p) i), s2))
                | None \<Rightarrow>
                    (case find (\<lambda>lease. ExpireTime lease < now) (go_range ks leases) of
                       Some lease \<Rightarrow>
                         (Inr (IP lease),
                          snd (Store p (newLease nic (IP lease) (expireDuration p) None stamp) s1))
                     | None \<Rightarrow> (Inl ErrLeasePoolIsFull, s1)))))"

text \<open>
  \<open>Request p nic currentIP stamp now\<close>. The loop over the map in the third branch only
  asks whether some lease satisfies the test, which no order of visit changes.
\<close>

definition Request :: "LeasePool \<Rightarrow> string \<Rightarrow> ip \<Rightarrow> time \<Rightarrow> time \<Rightarrow> etcd \<Rightarrow> (error + ip) \<times> etcd" where
  "Request p nic currentIP stamp now s =
     (case Leases p s of
        (Inl err, s1) \<Rightarrow> (Inl err, s1)
      | (Inr leases, s1) \<Rightarrow>
          (case map_of leases currentIP of
             Some lease \<Rightarrow>
               (if Nic lease = nic then
                  (Inr (IP lease),
                   snd (Store p (newLease nic (IP lease) (expireDuration p) (Some (FirstAssigned lease)) stamp) s1))
                else if ExpireTime lease > now then (Inl ErrRefreshNoMatch, s1)
                else (Inl ErrRefreshNoMatch, s1))
           | None \<Rightarrow>
               (if list_ex (\<lambda>lease. Nic lease = nic \<and> ExpireTime lease > now) (map snd leases)
                then (Inl ErrRefreshNoMatch, s1)
                else (Inr currentIP,
                      snd (Store p (newLease nic currentIP (expireDuration p) None stamp) s1)))))"

section \<open>The TFTP server (package tftp)\<close>

subsection \<open>Bytes and integers\<close>

text \<open>
  A byte is a \<open>char\<close>, a datagram or a Go \<open>string\<close> a list of them. A \<open>uint16\<close> is a
  16-bit word. \<open>binary.BigEndian.Uint16\<close> reads the first two bytes of a slice; every
  call of the source is on a slice of at least two bytes.
\<close>

type_synonym bytes = "char list"

definition Uint16 :: "bytes \<Rightarrow> 16 word" where
  "Uint16 b = (case b of hi # lo # _ \<Rightarrow> word_of_nat (of_char hi * 256 + of_char lo) | _ \<Rightarrow> 0)"

definition PutUint16 :: "16 word \<Rightarrow> bytes" where
  "PutUint16 v = [char_of (unat v div 256), char_of (unat v)]"

definition nullStr :: "bytes \<Rightarrow> string \<times> bytes \<times> bool" where
  "nullStr b =
     (if CHR 0x00 \<in> set b
      then (takeWhile (\<lambda>c. c \<noteq> CHR 0x00) b, tl (dropWhile (\<lambda>c. c \<noteq> CHR 0x00) b), True)
      else ([], [], False))"

text \<open>
  \<open>strconv.Atoi\<close> (not part of the repository): an optional sign, then one or more
  decimal digits (the bytes 48 to 57), and a value that fits the 64-bit \<open>int\<close>; anything
  else is an error.
\<close>

definition is_digit :: "char \<Rightarrow> bool" where
  "is_digit c = ((48::nat) \<le> of_char c \<and> (of_char c :: nat) \<le> 57)"

definition digits_value :: "string \<Rightarrow> nat" where
  "digits_value ds = foldl (\<lambda>n c. 10 * n + (of_char c - 48)) 0 ds"

definition Atoi :: "string \<Rightarrow> int option" where
  "Atoi s =
     (let neg = (s \<noteq> [] \<and> hd s = CHR ''-'');
          ds = (if s \<noteq> [] \<and> (hd s = CHR ''-'' \<or> hd s = CHR ''+'') then tl s else s);
          v = (if neg then - int (digits_value ds) else int (digits_value ds))
      in if ds = [] \<or> \<not> list_all is_digit ds then None
         else if v < - (2 ^ 63) \<or> 2 ^ 63 \<le> v then None
         else Some v)"

text \<open>\<open>fmt.Sprintf("%d", n)\<close> (not part of the repository): decimal, a minus sign if negative.\<close>

fun digits_of :: "nat \<Rightarrow> string" where
  "digits_of n = (if n < 10 then [char_of (48 + n)]
                  else digits_of (n div 10) @ [char_of (48 + n mod 10)])"

definition Sprintf_d :: "int \<Rightarrow> string" where
  "Sprintf_d n = (if n < 0 then CHR ''-'' # digits_of (nat (- n)) else digits_of (nat n))"

subsection \<open>Parsing a read request\<close>

record rrq =
  Filename :: string
  BlockSize :: int

text \<open>The errors of \<open>parseRRQ\<close>, one constructor for each \<open>fmt.Errorf\<close> of the source.\<close>

datatype rrq_error =
    TooSmall
  | NotRRQ
  | NoFilename
  | NoTransferMode
  | UnsupportedMode string
  | UnterminatedOptionName
  | UnterminatedOptionValue string
  | NonInteger string string
  | UnsupportedBlocksize int

lemma nullStr_shorter:
  "nullStr b = (str, b', True) \<Longrightarrow> length b' < length b"
proof -
  assume h: "nullStr b = (str, b', True)"
  then have z: "CHR 0x00 \<in> set b" and b': "b' = tl (dropWhile (\<lambda>c. c \<noteq> CHR 0x00) b)"
    by (auto simp: nullStr_def split: if_splits)
  from z have "dropWhile (\<lambda>c. c \<noteq> CHR 0x00) b \<noteq> []" by simp
  then have "length b' < length (dropWhile (\<lambda>c. c \<noteq> CHR 0x00) b)"
    using b' by (cases "dropWhile (\<lambda>c. c \<noteq> CHR 0x00) b") auto
  also have "\<dots> \<le> length b" by (rule length_dropWhile_le)
  finally show ?thesis .
qed

text \<open>The loop \<open>for len(b) > 0\<close> of \<open>parseRRQ\<close> over the option pairs.\<close>

function parse_options :: "bytes \<Rightarrow> rrq \<Rightarrow> rrq_error + rrq" where
  "parse_options b req =
     (if b = [] then Inr req
      else
        (case nullStr b of
           (opt, b1, ok1) \<Rightarrow>
             if \<not> ok1 then Inl UnterminatedOptionName
             else
               (case nullStr b1 of
                  (valStr, b2, ok2) \<Rightarrow>
                    if \<not> ok2 then Inl (UnterminatedOptionValue opt)
                    else
                      (case Atoi valStr of
                         None \<Rightarrow> Inl (NonInteger valStr opt)
                       | Some val \<Rightarrow>
                           if opt = ''blksize'' then
                             (if val < 8 \<or> val > 65464 then Inl (UnsupportedBlocksize val)
                              else parse_options b2
                                     (req\<lparr>BlockSize := (if val > 1450 then 1450 else val)\<rparr>))
                           else parse_options b2 req))))"
  by pat_completeness auto
termination
  apply (relation "measure (\<lambda>(b, req). length b)")
    apply simp
   apply (auto dest!: nullStr_shorter sym[of "(_, _)" "nullStr _"])
  done

definition parseRRQ :: "bytes \<Rightarrow> rrq_error + rrq" where
  "parseRRQ b =
     (if length b < 6 then Inl TooSmall
      else if Uint16 (take 2 b) \<noteq> 1 then Inl NotRRQ
      else
        (case nullStr (drop 2 b) of
           (fname, b1, ok1) \<Rightarrow>
             if \<not> ok1 then Inl NoFilename
             else
               (case nullStr b1 of
                  (mode, b2, ok2) \<Rightarrow>
                    if \<not> ok2 then Inl NoTransferMode
                    else if mode \<noteq> ''octet'' then Inl (UnsupportedMode mode)
                    else parse_options b2 \<lparr>Filename = fname, BlockSize = 0\<rparr>)))"

text \<open>
  \<open>mkError\<close>, on the text \<open>err.Error()\<close>; \<open>msg\<close> below is the wording of the errors of
  \<open>parseRRQ\<close>. One turn of the loop of \<open>Serve\<close>, which never ends: \<open>ReadFrom\<close> fails
  and the failure is logged, or it returns a datagram, cut to the 512 bytes of the
  buffer; then the ERROR packet goes back to the sender, or a transfer is started.
\<close>

definition mkError :: "string \<Rightarrow> bytes" where
  "mkError s = [CHR 0x00, CHR 0x05, CHR 0x00, CHR 0x00] @ s @ [CHR 0x00]"

datatype served = Logged string | WriteTo bytes | GoTransfer rrq

definition Serve_read :: "(rrq_error \<Rightarrow> string) \<Rightarrow> string + bytes \<Rightarrow> served" where
  "Serve_read msg r =
     (case r of
        Inl err \<Rightarrow> Logged err
      | Inr datagram \<Rightarrow>
          (case parseRRQ (take 512 datagram) of
             Inl err \<Rightarrow> WriteTo (mkError (msg err))
           | Inr req \<Rightarrow> GoTransfer req))"

subsection \<open>Sending one packet\<close>

text \<open>
  The connection: what the reads to come return, in order, and the packets written so
  far. A read returns a datagram, fails with a timeout (the deadline of one second has
  passed) or fails otherwise; when nothing is left to arrive, every read times out.
\<close>

datatype read_result = Datagram bytes | Timeout | ReadError string

record conn =
  incoming :: "read_result list"
  written :: "bytes list"

datatype tftp_error =
    ReadFailed string
  | ClientAborted string
  | TimedOut "16 word"

definition numRetries :: nat where
  "numRetries = 5"

text \<open>
  The inner loop of \<open>sendPacket\<close>, with the buffer \<open>recv\<close> of 256 bytes that a read
  overwrites from the front. \<open>None\<close> is \<open>continue Tx\<close>, \<open>Some None\<close> is \<open>return nil\<close>,
  \<open>Some (Some err)\<close> is \<open>return err\<close>.
\<close>

fun await_ack :: "16 word \<Rightarrow> bytes \<Rightarrow> read_result list \<Rightarrow> tftp_error option option \<times> read_result list" where
  "await_ack seq recv [] = (None, [])"
| "await_ack seq recv (Timeout # rs) = (None, rs)"
| "await_ack seq recv (ReadError e # rs) = (Some (Some (ReadFailed e)), rs)"
| "await_ack seq recv (Datagram d # rs) =
     (let n = min (length d) (length recv);
          recv' = take n d @ drop n recv
      in if n < 4 then await_ack seq recv' rs
         else if Uint16 (take 2 recv') = 4 then
           (if Uint16 (take 2 (drop 2 recv')) = seq then (Some None, rs)
            else await_ack seq recv' rs)
         else if Uint16 (take 2 recv') = 5 then
           (Some (Some (ClientAborted (fst (nullStr (drop 4 recv'))))), rs)
         else await_ack seq recv' rs)"

text \<open>The loop \<open>Tx\<close>, with the number of tries that are left.\<close>

fun sendPacket_tries :: "nat \<Rightarrow> bytes \<Rightarrow> 16 word \<Rightarrow> conn \<Rightarrow> tftp_error option \<times> conn" where
  "sendPacket_tries 0 b seq c = (Some (TimedOut seq), c)"
| "sendPacket_tries (Suc n) b seq c =
     (case await_ack seq (replicate 256 (CHR 0x00)) (incoming c) of
        (None, rs) \<Rightarrow> sendPacket_tries n b seq \<lparr>incoming = rs, written = written c @ [b]\<rparr>
      | (Some r, rs) \<Rightarrow> (r, \<lparr>incoming = rs, written = written c @ [b]\<rparr>))"

definition sendPacket :: "bytes \<Rightarrow> 16 word \<Rightarrow> conn \<Rightarrow> tftp_error option \<times> conn" where
  "sendPacket b seq c = sendPacket_tries numRetries b seq c"

subsection \<open>A transfer\<close>

definition bsize_of :: "rrq \<Rightarrow> nat" where
  "bsize_of req = (if BlockSize req > 0 then nat (BlockSize req) else 512)"

definition data_packet :: "16 word \<Rightarrow> bytes \<Rightarrow> bytes" where
  "data_packet seq payload = [CHR 0x00, CHR 0x03] @ PutUint16 seq @ payload"

definition oack_packet :: "rrq \<Rightarrow> bytes" where
  "oack_packet req = [CHR 0x00, CHR 0x06] @ ''blksize'' @ [CHR 0x00] @ Sprintf_d (BlockSize req) @ [CHR 0x00]"

text \<open>The loop \<open>for len(toTX) > 0\<close> of \<open>transfer\<close>.\<close>

function send_blocks :: "rrq \<Rightarrow> bytes \<Rightarrow> 16 word \<Rightarrow> conn \<Rightarrow> tftp_error option \<times> conn" where
  "send_blocks req toTX seq c =
     (if toTX = [] then (None, c)
      else
        (let l = (if length toTX > bsize_of req then bsize_of req else length toTX) in
         case sendPacket (data_packet seq (take l toTX)) seq c of
           (Some err, c') \<Rightarrow> (Some err, c')
         | (None, c') \<Rightarrow> send_blocks req (drop l toTX) (seq + 1) c'))"
  by pat_completeness auto
termination
  apply (relation "measure (\<lambda>(req, toTX, seq, c). length toTX)")
   apply (auto simp: bsize_of_def)
  done

text \<open>
  \<open>transfer\<close> takes the result of \<open>net.Dial\<close>: a failure, or the connection. How it
  ends: the dial failed, the payload is sent (\<open>Log "Sent pxelinux"\<close>), the OACK was not
  acknowledged (\<open>Debug\<close>), or a DATA packet was not (\<open>Log "Transfer ... failed"\<close>).
\<close>

datatype ending = DialFailed string | Sent | OackFailed tftp_error | DataFailed tftp_error

definition transfer :: "rrq \<Rightarrow> bytes \<Rightarrow> string + conn \<Rightarrow> ending \<times> conn option" where
  "transfer req pxelinux dial =
     (case dial of
        Inl err \<Rightarrow> (DialFailed err, None)
      | Inr c \<Rightarrow>
          (case (if BlockSize req > 0 then sendPacket (oack_packet req) 0 c else (None, c)) of
             (Some err, c1) \<Rightarrow> (OackFailed err, Some c1)
           | (None, c1) \<Rightarrow>
               (case send_blocks req pxelinux 1 c1 of
                  (Some err, c2) \<Rightarrow> (DataFailed err, Some c2)
                | (None, c2) \<Rightarrow> (Sent, Some c2))))"

section \<open>Notions of the statements\<close>

subsection \<open>Read requests\<close>

text \<open>
  The filename field of a datagram: the bytes after the opcode up to the first zero
  byte; it is terminated when there is such a byte.
\<close>

definition filename_field :: "bytes \<Rightarrow> bytes" where
  "filename_field b = takeWhile (\<lambda>c. c \<noteq> CHR 0x00) (drop 2 b)"

definition filename_terminated :: "bytes \<Rightarrow> bool" where
  "filename_terminated b = (CHR 0x00 \<in> set (drop 2 b))"

text \<open>
  A read request in octet mode as a client builds it from a filename and option pairs.
  When an option is named more than once, the loop of \<open>parseRRQ\<close> keeps the last value:
  that is the block size the request asks for.
\<close>

definition nul_free :: "string \<Rightarrow> bool" where
  "nul_free s = (CHR 0x00 \<notin> set s)"

definition encode_options :: "(string \<times> string) list \<Rightarrow> bytes" where
  "encode_options opts = concat (map (\<lambda>(name, val). name @ [CHR 0x00] @ val @ [CHR 0x00]) opts)"

definition rrq_packet :: "string \<Rightarrow> (string \<times> string) list \<Rightarrow> bytes" where
  "rrq_packet fname opts =
     [CHR 0x00, CHR 0x01] @ fname @ [CHR 0x00] @ ''octet'' @ [CHR 0x00] @ encode_options opts"

definition requested_blksize :: "(string \<times> string) list \<Rightarrow> string option" where
  "requested_blksize opts =
     (case filter (\<lambda>(name, val). name = ''blksize'') opts of
        [] \<Rightarrow> None
      | x # xs \<Rightarrow> Some (snd (last (x # xs))))"

subsection \<open>Replies to a packet\<close>

text \<open>
  A datagram is a matching ACK for \<open>seq\<close> when it has at least four bytes, opcode 4 and
  the block number \<open>seq\<close>; it is an ERROR packet when it has at least four bytes and
  opcode 5. A read is quiet when it decides nothing: a timeout, or a datagram that is
  neither (too short, an ACK for another block, another opcode). \<open>timeouts\<close> counts
  the timeouts of a sequence of reads, \<open>client_message\<close> is the text of an ERROR packet:
  the bytes after the four bytes of opcode and error code, up to the first zero byte.
\<close>

definition is_ack :: "16 word \<Rightarrow> bytes \<Rightarrow> bool" where
  "is_ack seq d = (4 \<le> length d \<and> Uint16 (take 2 d) = 4 \<and> Uint16 (take 2 (drop 2 d)) = seq)"





text \<open>
  \<open>sendPacket\<close> inside its inner loop: \<open>n\<close> tries are left after the one under way,
  \<open>recv\<close> is the buffer, \<open>rs\<close> the reads to come and \<open>w\<close> the packets written.
\<close>

definition resume :: "nat \<Rightarrow> bytes \<Rightarrow> 16 word \<Rightarrow> bytes \<Rightarrow> read_result list \<Rightarrow> bytes list \<Rightarrow> tftp_error option \<times> conn" where
  "resume n b seq recv rs w =
     (case await_ack seq recv rs of
        (None, rs') \<Rightarrow> sendPacket_tries n b seq \<lparr>incoming = rs', written = w\<rparr>
      | (Some r, rs') \<Rightarrow> (r, \<lparr>incoming = rs', written = w\<rparr>))"

subsection \<open>The blocks of a payload\<close>

text \<open>
  \<open>block_count N B\<close> is \<open>\<lceil>N / B\<rceil>\<close>; \<open>block B payload i\<close> is the \<open>i\<close>-th run of \<open>B\<close> bytes of
  the payload, counted from 0. \<open>ack_packet seq\<close> is the ACK for the block \<open>seq\<close>, and
  \<open>prompt_acks seq k\<close> are the reads of a connection whose client acknowledges the \<open>k\<close>
  blocks from \<open>seq\<close> on, each at once.
\<close>

definition ack_packet :: "16 word \<Rightarrow> bytes" where
  "ack_packet seq = [CHR 0x00, CHR 0x04] @ PutUint16 seq"

definition block_count :: "nat \<Rightarrow> nat \<Rightarrow> nat" where
  "block_count N B = (N + B - 1) div B"

definition block :: "nat \<Rightarrow> bytes \<Rightarrow> nat \<Rightarrow> bytes" where
  "block B payload i = take B (drop (i * B) payload)"

definition prompt_acks :: "16 word \<Rightarrow> nat \<Rightarrow> read_result list" where
  "prompt_acks seq k = map (\<lambda>i. Datagram (ack_packet (seq + of_nat i))) [0 ..< k]"

text \<open>
  \<open>data_run B payload seq ns\<close> are the DATA packets of a transfer that cuts the payload
  into blocks of \<open>B\<close> bytes and numbers them from \<open>seq\<close>: the block \<open>i\<close> is written
  \<open>ns ! i\<close> times, and the blocks from \<open>length ns\<close> on are not written.
\<close>

definition data_run :: "nat \<Rightarrow> bytes \<Rightarrow> 16 word \<Rightarrow> nat list \<Rightarrow> bytes list" where
  "data_run B payload seq ns =
     concat (map (\<lambda>(i, n). replicate n (data_packet (seq + of_nat i) (block B payload i)))
                 (zip [0 ..< length ns] ns))"

subsection \<open>The table of leases\<close>

text \<open>
  The nodes of the subtree, none when it does not exist, and the table of the leases
  that they hold, by key. The store is well kept when no key occurs twice and every
  value decodes to a lease whose address is its key: the layout that \<open>Store\<close> writes.
  It is serving when no request to come fails, and \<open>served n\<close> when the next \<open>n\<close>
  requests do not. A pool is empty when it has no node.
\<close>

definition nodes_of :: "etcd \<Rightarrow> (ip \<times> json_text) list" where
  "nodes_of s = (case leases_dir s of None \<Rightarrow> [] | Some nodes \<Rightarrow> nodes)"

definition stored :: "etcd \<Rightarrow> ip \<Rightarrow> Lease option" where
  "stored s k = (case map_of (nodes_of s) k of None \<Rightarrow> None | Some v \<Rightarrow> json_Unmarshal v)"

definition own_key :: "ip \<times> json_text \<Rightarrow> bool" where
  "own_key node = (case json_Unmarshal (snd node) of None \<Rightarrow> False | Some lease \<Rightarrow> IP lease = fst node)"

definition well_kept :: "etcd \<Rightarrow> bool" where
  "well_kept s = (distinct (map fst (nodes_of s)) \<and> list_all own_key (nodes_of s))"

definition serving :: "etcd \<Rightarrow> bool" where
  "serving s = list_all (\<lambda>f. \<not> f) (faults s)"

definition served :: "nat \<Rightarrow> etcd \<Rightarrow> bool" where
  "served n s = list_all (\<lambda>f. \<not> f) (take n (faults s))"

definition empty_pool :: "etcd \<Rightarrow> bool" where
  "empty_pool s = (nodes_of s = [])"

text \<open>
  The lease that a renewal writes for a stored lease (the first assignment is kept), and
  the lease of a new binding; \<open>stamp\<close> is the clock as \<open>newLease\<close> reads it.
\<close>

definition renewed :: "LeasePool \<Rightarrow> Lease \<Rightarrow> time \<Rightarrow> Lease" where
  "renewed p lease stamp =
     \<lparr>Nic = Nic lease, IP = IP lease, FirstAssigned = FirstAssigned lease,
      LastAssigned = stamp, ExpireTime = stamp + expireDuration p\<rparr>"

definition fresh :: "LeasePool \<Rightarrow> string \<Rightarrow> ip \<Rightarrow> time \<Rightarrow> Lease" where
  "fresh p nic a stamp =
     \<lparr>Nic = nic, IP = a, FirstAssigned = stamp,
      LastAssigned = stamp, ExpireTime = stamp + expireDuration p\<rparr>"

text \<open>
  What \<open>Leases\<close> lists: a node is decodable when \<open>json.Unmarshal\<close> accepts its value;
  \<open>decoded\<close> pairs each decoded lease with its address, in the order of the nodes.
\<close>

definition decodable :: "ip \<times> json_text \<Rightarrow> bool" where
  "decodable node = (json_Unmarshal (snd node) \<noteq> None)"

definition decoded :: "(ip \<times> json_text) list \<Rightarrow> (ip \<times> Lease) list" where
  "decoded nodes =
     List.map_filter (\<lambda>node. map_option (\<lambda>lease. (IP lease, lease)) (json_Unmarshal (snd node))) nodes"

subsection \<open>Sequences of operations\<close>

text \<open>
  A call of \<open>Assign\<close> or \<open>Request\<close> with its hardware identifier, the seed of the map
  order or the address, and the two readings of the clock: \<open>stamp\<close> by \<open>newLease\<close> and
  \<open>now\<close> in the body of the operation, which comes first. \<open>run\<close> performs a sequence of
  calls, each on the store that the one before has left.
\<close>

datatype operation = AssignOp string "ip list" time time | RequestOp string ip time time

fun op_nic :: "operation \<Rightarrow> string" where
  "op_nic (AssignOp nic ks stamp now) = nic"
| "op_nic (RequestOp nic a stamp now) = nic"

fun op_stamp :: "operation \<Rightarrow> time" where
  "op_stamp (AssignOp nic ks stamp now) = stamp"
| "op_stamp (RequestOp nic a stamp now) = stamp"

fun op_now :: "operation \<Rightarrow> time" where
  "op_now (AssignOp nic ks stamp now) = now"
| "op_now (RequestOp nic a stamp now) = now"

fun perform :: "LeasePool \<Rightarrow> operation \<Rightarrow> etcd \<Rightarrow> etcd" where
  "perform p (AssignOp nic ks stamp now) s = snd (Assign p nic ks stamp now s)"
| "perform p (RequestOp nic a stamp now) s = snd (Request p nic a stamp now s)"

fun run :: "LeasePool \<Rightarrow> operation list \<Rightarrow> etcd \<Rightarrow> etcd" where
  "run p [] s = s"
| "run p (op # ops) s = run p ops (perform p op s)"

text \<open>
  The clock does not run backwards: from \<open>t\<close> on, each call reads \<open>now\<close> and then
  \<open>stamp\<close>, and the next call reads later still. \<open>end_time\<close> is the last reading.
\<close>

fun clock_runs :: "time \<Rightarrow> operation list \<Rightarrow> bool" where
  "clock_runs t [] = True"
| "clock_runs t (op # ops) = (t \<le> op_now op \<and> op_now op \<le> op_stamp op \<and> clock_runs (op_stamp op) ops)"

fun end_time :: "time \<Rightarrow> operation list \<Rightarrow> time" where
  "end_time t [] = t"
| "end_time t (op # ops) = end_time (op_stamp op) ops"

text \<open>
  A lease is valid when \<open>first_assigned \<le> last_assigned \<le> expire_time\<close> and the
  hardware identifier is not empty (its address is an IPv4 address by its type). It is
  live at \<open>t\<close>, not expired, when \<open>expire_time > t\<close>: the test \<open>ExpireTime.After(now)\<close>
  of \<open>Request\<close>. Two nodes clash at \<open>t\<close> when their keys differ and they hold live leases
  of one hardware identifier. The invariant of the pool: every record is a valid lease,
  and no two nodes clash.
\<close>

definition valid_lease :: "Lease \<Rightarrow> bool" where
  "valid_lease l = (FirstAssigned l \<le> LastAssigned l \<and> LastAssigned l \<le> ExpireTime l \<and> Nic l \<noteq> [])"

definition valid_node :: "ip \<times> json_text \<Rightarrow> bool" where
  "valid_node node = (case json_Unmarshal (snd node) of None \<Rightarrow> False | Some l \<Rightarrow> valid_lease l)"

definition live :: "time \<Rightarrow> Lease \<Rightarrow> bool" where
  "live t l = (ExpireTime l > t)"

definition clash :: "time \<Rightarrow> ip \<times> json_text \<Rightarrow> ip \<times> json_text \<Rightarrow> bool" where
  "clash t n1 n2 =
     (fst n1 \<noteq> fst n2 \<and>
      (case json_Unmarshal (snd n1) of
         None \<Rightarrow> False
       | Some l1 \<Rightarrow>
           (case json_Unmarshal (snd n2) of
              None \<Rightarrow> False
            | Some l2 \<Rightarrow> Nic l1 = Nic l2 \<and> live t l1 \<and> live t l2)))"

definition valid_records :: "etcd \<Rightarrow> bool" where
  "valid_records s = list_all valid_node (nodes_of s)"

definition no_clash :: "time \<Rightarrow> etcd \<Rightarrow> bool" where
  "no_clash t s = list_all (\<lambda>n1. list_all (\<lambda>n2. \<not> clash t n1 n2) (nodes_of s)) (nodes_of s)"

definition pool_invariant :: "time \<Rightarrow> etcd \<Rightarrow> bool" where
  "pool_invariant t s = (valid_records s \<and> no_clash t s)"

text \<open>
  The lease that a call renews in the store, if any: the lease that the first loop of
  \<open>Assign\<close> finds for the hardware identifier, the lease of the address asked for in
  \<open>Request\<close> when it is the client's own; and the store serves the write. \<open>other_live\<close>
  says that another key than the lease's holds a live lease of the same client. In
  \<open>renewals_safe\<close> no call of the sequence renews a lease while another key holds a live
  lease of its client.
\<close>

fun renews :: "LeasePool \<Rightarrow> operation \<Rightarrow> etcd \<Rightarrow> Lease option" where
  "renews p (AssignOp nic ks stamp now) s =
     (case Leases p s of
        (Inl err, s1) \<Rightarrow> None
      | (Inr leases, s1) \<Rightarrow>
          (case find (\<lambda>lease. Nic lease = nic) (go_range ks leases) of
             None \<Rightarrow> None
           | Some lease \<Rightarrow>
               if fst (Store p (renewed p lease stamp) s1) = None then Some lease else None))"
| "renews p (RequestOp nic a stamp now) s =
     (case Leases p s of
        (Inl err, s1) \<Rightarrow> None
      | (Inr leases, s1) \<Rightarrow>
          (case map_of leases a of
             None \<Rightarrow> None
           | Some lease \<Rightarrow>
               if Nic lease = nic \<and> fst (Store p (renewed p lease stamp) s1) = None
               then Some lease else None))"

definition other_live :: "time \<Rightarrow> etcd \<Rightarrow> Lease \<Rightarrow> bool" where
  "other_live t s lease =
     list_ex (\<lambda>node. fst node \<noteq> IP lease \<and>
                (case json_Unmarshal (snd node) of
                   None \<Rightarrow> False
                 | Some l \<Rightarrow> Nic l = Nic lease \<and> live t l))
             (nodes_of s)"

fun renewals_safe :: "LeasePool \<Rightarrow> operation list \<Rightarrow> etcd \<Rightarrow> bool" where
  "renewals_safe p [] s = True"
| "renewals_safe p (op # ops) s =
     ((case renews p op s of None \<Rightarrow> True | Some lease \<Rightarrow> \<not> other_live (op_stamp op) s lease) \<and>
      renewals_safe p ops (perform p op s))"

text \<open>
  A second binding: \<open>Request\<close> asks for an address that holds no lease, for a client
  that has a record, every one of them lapsed; this is where \<open>Request\<close> gives the client
  a second key. In \<open>no_second_binding\<close> no call of the sequence is one.
\<close>

fun second_binding :: "operation \<Rightarrow> etcd \<Rightarrow> bool" where
  "second_binding (AssignOp nic ks stamp now) s = False"
| "second_binding (RequestOp nic a stamp now) s =
     (stored s a = None \<and>
      list_ex (\<lambda>node. case json_Unmarshal (snd node) of None \<Rightarrow> False | Some l \<Rightarrow> Nic l = nic)
        (nodes_of s) \<and>
      list_all (\<lambda>node. case json_Unmarshal (snd node) of
                  None \<Rightarrow> True | Some l \<Rightarrow> Nic l = nic \<longrightarrow> \<not> live now l)
        (nodes_of s))"

fun no_second_binding :: "LeasePool \<Rightarrow> operation list \<Rightarrow> etcd \<Rightarrow> bool" where
  "no_second_binding p [] s = True"
| "no_second_binding p (op # ops) s =
     (\<not> second_binding op s \<and> no_second_binding p ops (perform p op s))"

text \<open>
  The invariant in terms of the table: \<open>tidy\<close> for the records (with every last
  assignment in the past), \<open>single\<close> for the bindings; in \<open>one_key\<close> no client has
  records under two keys.
\<close>

definition tidy :: "time \<Rightarrow> etcd \<Rightarrow> bool" where
  "tidy t s =
     (well_kept s \<and> (\<forall>k l. stored s k = Some l \<longrightarrow> valid_lease l \<and> LastAssigned l \<le> t))"

definition single :: "time \<Rightarrow> etcd \<Rightarrow> bool" where
  "single t s =
     (\<forall>k1 k2 l1 l2. k1 \<noteq> k2 \<and> stored s k1 = Some l1 \<and> stored s k2 = Some l2 \<and> Nic l1 = Nic l2
          \<longrightarrow> \<not> (live t l1 \<and> live t l2))"

definition one_key :: "etcd \<Rightarrow> bool" where
  "one_key s =
     (\<forall>k1 k2 l1 l2. stored s k1 = Some l1 \<and> stored s k2 = Some l2 \<and> Nic l1 = Nic l2 \<longrightarrow> k1 = k2)"

subsection \<open>The scenario S1\<close>

text \<open>
  The pool of the scenarios: start \<open>10.0.0.10\<close>, three addresses, leases of one hour
  (in seconds); the store before the first call and after \<open>Assign("aa:aa")\<close> at time 0.
\<close>

definition S1_pool :: LeasePool where
  "S1_pool = \<lparr>etcdDir = ''blacksmith'', startIP = 0x0A00000A, rangeLen = 3, expireDuration = 3600\<rparr>"

definition S1_start :: etcd where
  "S1_start = \<lparr>leases_dir = None, faults = []\<rparr>"

definition S1_aa :: etcd where
  "S1_aa = \<lparr>leases_dir = Some [(0x0A00000A, Json (fresh S1_pool ''aa:aa'' 0x0A00000A 0))], faults = []\<rparr>"

section \<open>Properties of the TFTP server\<close>

subsection \<open>The parser\<close>

declare parse_options.simps [simp del]

lemma parse_options_Filename:
  "parse_options b req = Inr r \<Longrightarrow> Filename r = Filename req"
proof (induction b req rule: parse_options.induct)
  case (1 b req)
  show ?case
  proof (cases "b = []")
    case True
    with "1.prems" show ?thesis by (simp add: parse_options.simps)
  next
    case False
    obtain opt b1 ok1 where n1: "nullStr b = (opt, b1, ok1)" by (cases "nullStr b") auto
    obtain valStr b2 ok2 where n2: "nullStr b1 = (valStr, b2, ok2)" by (cases "nullStr b1") auto
    from "1.prems" False n1 n2 obtain val where
      ok: "ok1" "ok2" and a: "Atoi valStr = Some val"
      by (subst (asm) parse_options.simps) (auto split: option.splits if_splits)
    show ?thesis
    proof (cases "opt = ''blksize''")
      case True
      with "1.prems" False n1 n2 ok a have r: "\<not> (val < 8 \<or> val > 65464)"
        "parse_options b2 (req\<lparr>BlockSize := (if val > 1450 then 1450 else val)\<rparr>) = Inr r"
        by (subst (asm) parse_options.simps, auto split: if_splits)+
      from "1.IH"(1)[OF False n1[symmetric] refl _ n2[symmetric] refl _ a True r(1) r(2)] ok
      show ?thesis by simp
    next
      case nb: False
      with "1.prems" False n1 n2 ok a have r: "parse_options b2 req = Inr r"
        by (subst (asm) parse_options.simps, auto split: if_splits)
      from "1.IH"(2)[OF False n1[symmetric] refl _ n2[symmetric] refl _ a nb r] ok
      show ?thesis by simp
    qed
  qed
qed

lemma nullStr_unterminated:
  "CHR 0x00 \<notin> set b \<Longrightarrow> nullStr b = ([], [], False)"
  by (simp add: nullStr_def)

lemma nullStr_ok:
  "nullStr b = (str, b', ok) \<Longrightarrow> ok = (CHR 0x00 \<in> set b)"
  by (auto simp: nullStr_def split: if_splits)

lemma nullStr_str:
  "nullStr b = (str, b', True) \<Longrightarrow> str = takeWhile (\<lambda>c. c \<noteq> CHR 0x00) b"
  by (auto simp: nullStr_def split: if_splits)

lemma nullStr_terminated:
  "CHR 0x00 \<notin> set s \<Longrightarrow> nullStr (s @ CHR 0x00 # rest) = (s, rest, True)"
  by (induction s) (auto simp: nullStr_def)

lemma parse_options_Nil: "parse_options [] req = Inr req"
  by (simp add: parse_options.simps)

lemma parse_options_pair:
  assumes "CHR 0x00 \<notin> set name" "CHR 0x00 \<notin> set val"
  shows "parse_options (name @ CHR 0x00 # val @ CHR 0x00 # rest) req =
     (case Atoi val of
        None \<Rightarrow> Inl (NonInteger val name)
      | Some v \<Rightarrow>
          if name = ''blksize'' then
            (if v < 8 \<or> v > 65464 then Inl (UnsupportedBlocksize v)
             else parse_options rest (req\<lparr>BlockSize := (if v > 1450 then 1450 else v)\<rparr>))
          else parse_options rest req)"
  using assms
  by (subst parse_options.simps) (simp add: nullStr_terminated split: option.splits)

lemma encode_options_Cons:
  "encode_options ((name, val) # opts) = name @ CHR 0x00 # val @ CHR 0x00 # encode_options opts"
  by (simp add: encode_options_def)

lemma parse_encoded_options:
  assumes "list_all (\<lambda>(name, val). nul_free name \<and> nul_free val) opts"
    and "parse_options (encode_options opts) req = Inr req'"
  shows "BlockSize req' =
     (case requested_blksize opts of
        None \<Rightarrow> BlockSize req
      | Some vs \<Rightarrow> (case Atoi vs of None \<Rightarrow> 0 | Some v \<Rightarrow> if v > 1450 then 1450 else v))"
  using assms
proof (induction opts arbitrary: req)
  case Nil
  then show ?case by (simp add: encode_options_def parse_options_Nil requested_blksize_def)
next
  case (Cons o1 opts)
  obtain name val where o1: "o1 = (name, val)" by (cases o1)
  from Cons.prems(1) o1 have nf: "CHR 0x00 \<notin> set name" "CHR 0x00 \<notin> set val"
    and rest: "list_all (\<lambda>(name, val). nul_free name \<and> nul_free val) opts"
    by (simp_all add: nul_free_def)
  from Cons.prems(2) obtain v where a: "Atoi val = Some v"
    unfolding o1 encode_options_Cons parse_options_pair[OF nf]
    by (cases "Atoi val") auto
  show ?case
  proof (cases "name = ''blksize''")
    case True
    from Cons.prems(2) True a have
      r: "parse_options (encode_options opts) (req\<lparr>BlockSize := (if v > 1450 then 1450 else v)\<rparr>) = Inr req'"
      unfolding o1 encode_options_Cons parse_options_pair[OF nf]
      by (simp split: if_splits)
    from Cons.IH[OF rest r] True a o1 show ?thesis
      by (auto simp: requested_blksize_def split: list.splits)
  next
    case False
    from Cons.prems(2) False a have r: "parse_options (encode_options opts) req = Inr req'"
      unfolding o1 encode_options_Cons parse_options_pair[OF nf]
      by simp
    from Cons.IH[OF rest r] False o1 show ?thesis
      by (auto simp: requested_blksize_def split: list.splits)
  qed
qed

lemma Uint16_01: "Uint16 (take 2 (CHR 0x00 # CHR 0x01 # rest)) = 1"
  by (simp add: Uint16_def)

lemma parseRRQ_packet:
  assumes "CHR 0x00 \<notin> set fname"
  shows "parseRRQ (rrq_packet fname opts) = parse_options (encode_options opts) \<lparr>Filename = fname, BlockSize = 0\<rparr>"
proof -
  have "nullStr (''octet'' @ CHR 0x00 # encode_options opts) = (''octet'', encode_options opts, True)"
    by (rule nullStr_terminated) simp
  then show ?thesis
    using assms
  by (simp add: parseRRQ_def rrq_packet_def Uint16_def nullStr_terminated)
qed

text \<open>
  C6 (as amended). A datagram whose filename field is not terminated is rejected:
  \<open>parseRRQ\<close> returns an error, and \<open>Serve\<close> answers with an ERROR packet and starts no
  transfer. A request that is accepted has a terminated filename field, and its
  \<open>Filename\<close> is that field as it stands, empty or not: no test on the length of the
  filename is made.
\<close>

theorem parseRRQ_rejects_unterminated_filename:
  "(\<not> filename_terminated b \<longrightarrow>
      parseRRQ b \<in> {Inl TooSmall, Inl NotRRQ, Inl NoFilename} \<and>
      (\<exists>err. Serve_read msg (Inr b) = WriteTo (mkError (msg err)))) \<and>
   (\<forall>req. parseRRQ b = Inr req \<longrightarrow>
      filename_terminated b \<and> Filename req = filename_field b)"
proof (intro conjI impI allI)
  assume u: "\<not> filename_terminated b"
  then have n: "nullStr (drop 2 b) = ([], [], False)"
    by (simp add: filename_terminated_def nullStr_unterminated)
  then show "parseRRQ b \<in> {Inl TooSmall, Inl NotRRQ, Inl NoFilename}"
    by (simp add: parseRRQ_def)
  have "\<not> filename_terminated (take 512 b)"
    using u by (auto simp: filename_terminated_def drop_take dest: in_set_takeD)
  then have "nullStr (drop 2 (take 512 b)) = ([], [], False)"
    by (simp add: filename_terminated_def nullStr_unterminated)
  then have "parseRRQ (take 512 b) \<in> {Inl TooSmall, Inl NotRRQ, Inl NoFilename}"
    by (simp add: parseRRQ_def)
  then show "\<exists>err. Serve_read msg (Inr b) = WriteTo (mkError (msg err))"
    by (auto simp: Serve_read_def)
next
  fix req
  assume a: "parseRRQ b = Inr req"
  obtain fname b1 ok1 where n1: "nullStr (drop 2 b) = (fname, b1, ok1)"
    by (cases "nullStr (drop 2 b)") auto
  obtain mode b2 ok2 where n2: "nullStr b1 = (mode, b2, ok2)"
    by (cases "nullStr b1") auto
  from a n1 n2 have ok1: "ok1"
    and p: "parse_options b2 \<lparr>Filename = fname, BlockSize = 0\<rparr> = Inr req"
    by (auto simp: parseRRQ_def split: if_splits)
  from n1 ok1 show "filename_terminated b"
    by (auto simp: filename_terminated_def dest: nullStr_ok)
  from parse_options_Filename[OF p] n1 ok1 show "Filename req = filename_field b"
    by (auto simp: filename_field_def dest: nullStr_str)
qed

theorem parseRRQ_rejects_unterminated_filename_witness:
  "\<not> filename_terminated (CHR 0x00 # CHR 0x01 # ''pxelinux.0'') \<and>
   parseRRQ (CHR 0x00 # CHR 0x01 # ''pxelinux.0'') \<in> {Inl TooSmall, Inl NotRRQ, Inl NoFilename} \<and>
   (\<exists>err. Serve_read (\<lambda>e. ''no filename'') (Inr (CHR 0x00 # CHR 0x01 # ''pxelinux.0'')) =
       WriteTo (mkError ((\<lambda>e. ''no filename'') err))) \<and>
   parseRRQ (rrq_packet ''foo'' []) = Inr \<lparr>Filename = ''foo'', BlockSize = 0\<rparr> \<and>
   filename_terminated (rrq_packet ''foo'' []) \<and>
   Filename \<lparr>Filename = ''foo'', BlockSize = 0\<rparr> = filename_field (rrq_packet ''foo'' [])"
proof -
  have u: "\<not> filename_terminated (CHR 0x00 # CHR 0x01 # ''pxelinux.0'')"
    by (simp add: filename_terminated_def)
  have a: "parseRRQ (rrq_packet ''foo'' []) = Inr \<lparr>Filename = ''foo'', BlockSize = 0\<rparr>"
    by code_simp
  from parseRRQ_rejects_unterminated_filename[of "CHR 0x00 # CHR 0x01 # ''pxelinux.0''" "\<lambda>e. ''no filename''"]
    parseRRQ_rejects_unterminated_filename[of "rrq_packet ''foo'' []" "\<lambda>e. ''no filename''"] u a
  show ?thesis by blast
qed

text \<open>
  C6 without the amendment does not hold: the read request with an empty filename,
  \<open>00 01 00 "octet" 00\<close>, is accepted with \<open>Filename = ""\<close>, and \<open>Serve\<close> starts a transfer
  for it.
\<close>

theorem parseRRQ_empty_filename_accepted:
  "filename_field (CHR 0x00 # CHR 0x01 # CHR 0x00 # ''octet'' @ [CHR 0x00]) = [] \<and>
   parseRRQ (CHR 0x00 # CHR 0x01 # CHR 0x00 # ''octet'' @ [CHR 0x00]) = Inr \<lparr>Filename = [], BlockSize = 0\<rparr> \<and>
   Serve_read (\<lambda>err. []) (Inr (CHR 0x00 # CHR 0x01 # CHR 0x00 # ''octet'' @ [CHR 0x00])) =
     GoTransfer \<lparr>Filename = [], BlockSize = 0\<rparr>"
  by code_simp

subsection \<open>What a try writes\<close>

lemma sendPacket_tries_written:
  "\<exists>k. written (snd (sendPacket_tries n b seq c)) = written c @ replicate k b \<and> (0 < n \<longrightarrow> 0 < k)"
proof (induction n arbitrary: c)
  case 0
  show ?case by simp
next
  case (Suc n)
  obtain r rs where a: "await_ack seq (replicate 256 (CHR 0x00)) (incoming c) = (r, rs)"
    by (cases "await_ack seq (replicate 256 (CHR 0x00)) (incoming c)")
  show ?case
  proof (cases r)
    case None
    from Suc.IH[of "\<lparr>incoming = rs, written = written c @ [b]\<rparr>"] obtain k where
      "written (snd (sendPacket_tries n b seq \<lparr>incoming = rs, written = written c @ [b]\<rparr>)) = (written c @ [b]) @ replicate k b"
      by auto
    then have "written (snd (sendPacket_tries (Suc n) b seq c)) = written c @ replicate (Suc k) b"
      using a None by simp
    then show ?thesis by blast
  next
    case (Some e)
    then have "written (snd (sendPacket_tries (Suc n) b seq c)) = written c @ replicate (Suc 0) b"
      using a by simp
    then show ?thesis by blast
  qed
qed

declare send_blocks.simps [simp del]

subsection \<open>Stop and wait\<close>

lemma sendPacket_tries_Suc:
  "sendPacket_tries (Suc n) b seq c = resume n b seq (replicate 256 (CHR 0x00)) (incoming c) (written c @ [b])"
  by (simp add: resume_def)


lemma recv_head:
  assumes "length recv = 256" "4 \<le> length d"
  shows "take 2 (take (min (length d) (length recv)) d @ drop (min (length d) (length recv)) recv) = take 2 d"
    and "take 2 (drop 2 (take (min (length d) (length recv)) d @ drop (min (length d) (length recv)) recv)) = take 2 (drop 2 d)"
  using assms by (simp_all add: min_def drop_take)


lemma resume_ack:
  assumes "length recv = 256" "is_ack seq d"
  shows "resume n b seq recv (Datagram d # rs) w = (None, \<lparr>incoming = rs, written = w\<rparr>)"
proof -
  from assms(2) have 4: "4 \<le> length d" by (simp add: is_ack_def)
  with assms(1) have n4: "\<not> min (length d) (length recv) < 4" by (simp add: min_def)
  from assms(2) recv_head[OF assms(1) 4] n4 show ?thesis
    by (simp add: resume_def Let_def is_ack_def)
qed




lemma sendPacket_resume:
  "sendPacket b seq c = resume 4 b seq (replicate 256 (CHR 0x00)) (incoming c) (written c @ [b])"
proof -
  have "sendPacket_tries (Suc 4) b seq c =
        resume 4 b seq (replicate 256 (CHR 0x00)) (incoming c) (written c @ [b])"
    by (rule sendPacket_tries_Suc)
  moreover have "numRetries = Suc 4" by (simp add: numRetries_def)
  ultimately show ?thesis by (simp only: sendPacket_def)
qed







subsection \<open>The blocks of a transfer\<close>

lemma Uint16_PutUint16: "Uint16 (PutUint16 v) = v"
proof -
  have lt: "unat v < 65536" using unsigned_less[of v, where 'a = nat] by simp
  then have d: "unat v div 256 < 256" by simp
  have "Uint16 (PutUint16 v) = word_of_nat ((unat v div 256) mod 256 * 256 + unat v mod 256)"
    by (simp add: Uint16_def PutUint16_def of_char_of)
  also have "(unat v div 256) mod 256 * 256 + unat v mod 256 = unat v"
    using d by simp
  finally show ?thesis by simp
qed

lemma is_ack_ack_packet: "is_ack seq (ack_packet seq)"
proof -
  have "length (PutUint16 seq) = 2" by (simp add: PutUint16_def)
  then have "take 2 (drop 2 (ack_packet seq)) = PutUint16 seq"
    by (simp add: ack_packet_def)
  moreover have "Uint16 (take 2 (ack_packet seq)) = 4" by (simp add: ack_packet_def Uint16_def)
  moreover have "4 \<le> length (ack_packet seq)" by (simp add: ack_packet_def PutUint16_def)
  ultimately show ?thesis by (simp add: is_ack_def Uint16_PutUint16)
qed

lemma sendPacket_acked:
  assumes "incoming c = Datagram (ack_packet seq) # rest"
  shows "sendPacket b seq c = (None, \<lparr>incoming = rest, written = written c @ [b]\<rparr>)"
proof -
  have "length (replicate 256 (CHR 0x00)) = 256" by simp
  from resume_ack[OF this is_ack_ack_packet] assms show ?thesis
    by (simp only: sendPacket_resume)
qed

lemma block_count_0: "0 < B \<Longrightarrow> block_count N B = 0 \<longleftrightarrow> N = 0"
  by (auto simp: block_count_def div_eq_0_iff)

lemma block_count_step:
  assumes "0 < B" "0 < N"
  shows "block_count N B = Suc (block_count (N - min N B) B)"
proof (cases "N \<le> B")
  case True
  then have "min N B = N" by simp
  moreover have "(N + B - 1) div B = 1"
    using assms True by (intro div_nat_eqI) auto
  moreover have "(B - 1) div B = 0" using assms by simp
  ultimately show ?thesis by (simp add: block_count_def)
next
  case False
  then have m: "min N B = B" by simp
  from False have "N + B - 1 = (N - B + B - 1) + B" by simp
  then have "(N + B - 1) div B = (N - B + B - 1) div B + 1"
    using assms by (metis div_add_self2 less_numeral_extra(3))
  with m show ?thesis by (simp add: block_count_def)
qed

lemma block_Suc:
  "B \<le> length xs \<Longrightarrow> block B (drop (min (length xs) B) xs) i = block B xs (Suc i)"
  by (simp add: block_def min_def add.commute)

lemma send_blocks_prompt:
  assumes "k = block_count (length toTX) (bsize_of req)"
  shows "send_blocks req toTX seq \<lparr>incoming = prompt_acks seq k @ rest, written = w\<rparr> =
     (None, \<lparr>incoming = rest,
             written = w @ map (\<lambda>i. data_packet (seq + of_nat i) (block (bsize_of req) toTX i)) [0 ..< k]\<rparr>)"
  using assms
proof (induction k arbitrary: toTX seq w)
  case 0
  have "0 < bsize_of req" by (simp add: bsize_of_def)
  with 0 have "toTX = []" using block_count_0[of "bsize_of req" "length toTX"] by simp
  then show ?case by (simp add: send_blocks.simps prompt_acks_def)
next
  case (Suc k)
  let ?B = "bsize_of req"
  let ?l = "if length toTX > ?B then ?B else length toTX"
  have B: "0 < ?B" by (simp add: bsize_of_def)
  from Suc.prems B have ne: "toTX \<noteq> []" using block_count_0[of ?B "length toTX"] by auto
  have l: "?l = min (length toTX) ?B" by (simp add: min_def)
  from Suc.prems block_count_step[OF B, of "length toTX"] ne
  have k: "k = block_count (length (drop ?l toTX)) ?B" by (simp add: l)
  have pa: "prompt_acks seq (Suc k) = Datagram (ack_packet seq) # prompt_acks (seq + 1) k"
    by (simp add: prompt_acks_def map_upt_Suc add.assoc del: upt_Suc)
  have sp: "sendPacket (data_packet seq (take ?l toTX)) seq
              \<lparr>incoming = prompt_acks seq (Suc k) @ rest, written = w\<rparr> =
            (None, \<lparr>incoming = prompt_acks (seq + 1) k @ rest,
                    written = w @ [data_packet seq (take ?l toTX)]\<rparr>)"
    by (rule trans[OF sendPacket_acked]) (simp_all add: pa)
  have b0: "take ?l toTX = block ?B toTX 0" by (simp add: block_def)
  have bs: "block ?B (drop ?l toTX) i = block ?B toTX (Suc i)" if "i < k" for i
  proof -
    from that k B have "drop ?l toTX \<noteq> []" using block_count_0[of ?B "length (drop ?l toTX)"] by auto
    then have "?B \<le> length toTX" by (auto split: if_splits)
    from block_Suc[OF this, of i] show ?thesis by (simp add: l)
  qed
  have m: "map (\<lambda>i. data_packet (seq + 1 + of_nat i) (block ?B (drop ?l toTX) i)) [0 ..< k] =
           map (\<lambda>i. data_packet (seq + of_nat (Suc i)) (block ?B toTX (Suc i))) [0 ..< k]"
    by (rule map_cong) (simp_all add: bs ac_simps)
  have "send_blocks req toTX seq \<lparr>incoming = prompt_acks seq (Suc k) @ rest, written = w\<rparr> =
        send_blocks req (drop ?l toTX) (seq + 1)
          \<lparr>incoming = prompt_acks (seq + 1) k @ rest, written = w @ [data_packet seq (take ?l toTX)]\<rparr>"
    using ne sp by (subst send_blocks.simps) (simp add: Let_def)
  also have "\<dots> = (None, \<lparr>incoming = rest,
       written = (w @ [data_packet seq (take ?l toTX)]) @
         map (\<lambda>i. data_packet (seq + 1 + of_nat i) (block ?B (drop ?l toTX) i)) [0 ..< k]\<rparr>)"
    by (rule Suc.IH[OF k])
  also have "(w @ [data_packet seq (take ?l toTX)]) @
         map (\<lambda>i. data_packet (seq + 1 + of_nat i) (block ?B (drop ?l toTX) i)) [0 ..< k] =
       w @ map (\<lambda>i. data_packet (seq + of_nat i) (block ?B toTX i)) [0 ..< Suc k]"
    unfolding m b0 by (simp add: map_upt_Suc del: upt_Suc)
  finally show ?case .
qed


lemma concat_blocks:
  assumes "0 < B" "k = block_count (length xs) B"
  shows "concat (map (block B xs) [0 ..< k]) = xs"
  using assms(2)
proof (induction k arbitrary: xs)
  case 0
  with assms(1) show ?case using block_count_0[of B "length xs"] by simp
next
  case (Suc k)
  let ?l = "min (length xs) B"
  from Suc.prems assms(1) have ne: "0 < length xs" using block_count_0[of B "length xs"] by auto
  from Suc.prems block_count_step[OF assms(1) ne]
  have k: "k = block_count (length (drop ?l xs)) B" by simp
  have bs: "block B (drop ?l xs) i = block B xs (Suc i)" if "i < k" for i
  proof -
    from that k assms(1) have "drop ?l xs \<noteq> []" using block_count_0[of B "length (drop ?l xs)"] by auto
    then have "B \<le> length xs" by (auto simp: min_def split: if_splits)
    from block_Suc[OF this, of i] show ?thesis .
  qed
  have m: "map (block B (drop ?l xs)) [0 ..< k] = map (\<lambda>i. block B xs (Suc i)) [0 ..< k]"
    by (rule map_cong) (simp_all add: bs)
  have "concat (map (block B xs) [0 ..< Suc k]) =
        block B xs 0 @ concat (map (\<lambda>i. block B xs (Suc i)) [0 ..< k])"
    by (simp add: map_upt_Suc del: upt_Suc)
  also have "\<dots> = take ?l xs @ concat (map (block B (drop ?l xs)) [0 ..< k])"
    unfolding m by (simp add: block_def min_def)
  also have "\<dots> = take ?l xs @ drop ?l xs" using Suc.IH[OF k] by simp
  finally show ?case by simp
qed

lemma block_count_bounds:
  assumes "0 < B" "0 < N"
  shows "(block_count N B - 1) * B < N \<and> N \<le> block_count N B * B"
proof (cases "N mod B = 0")
  case True
  define q where "q = N div B"
  with True have q: "N = q * B" using div_mult_mod_eq[of N B] by simp
  with assms have q0: "0 < q" by (cases q) auto
  have "(q * B + B - 1) div B = q"
    using assms by (intro div_nat_eqI) (auto simp: algebra_simps)
  with q q0 assms show ?thesis by (simp add: block_count_def)
next
  case False
  define q r where "q = N div B" and "r = N mod B"
  then have N: "N = q * B + r" and r: "0 < r" "r < B" using False assms by simp_all
  have "(q * B + r + B - 1) div B = Suc q"
    using r by (intro div_nat_eqI) (auto simp: algebra_simps)
  with N r show ?thesis by (simp add: block_count_def)
qed

lemma block_lengths:
  assumes "0 < B" "xs \<noteq> []" "k = block_count (length xs) B"
  shows "0 < k"
    and "Suc i < k \<Longrightarrow> length (block B xs i) = B"
    and "length (block B xs (k - 1)) = (if length xs mod B = 0 then B else length xs mod B)"
proof -
  let ?N = "length xs"
  from assms(2) have N: "0 < ?N" by simp
  from block_count_bounds[OF assms(1) N] assms(3)
  have b: "(k - 1) * B < ?N" "?N \<le> k * B" by simp_all
  from b(2) N show k0: "0 < k" by (cases k) auto
  show "length (block B xs i) = B" if "Suc i < k"
  proof -
    from that have "Suc i \<le> k - 1" by simp
    then have "Suc i * B \<le> (k - 1) * B" by (rule mult_le_mono1)
    with b(1) have "i * B + B < ?N" by simp
    then show ?thesis by (simp add: block_def)
  qed
  show "length (block B xs (k - 1)) = (if ?N mod B = 0 then B else ?N mod B)"
  proof (cases "?N mod B = 0")
    case True
    define q where "q = ?N div B"
    with True have q: "?N = q * B" using div_mult_mod_eq[of ?N B] by simp
    from b q have "(k - 1) * B < q * B" "q * B \<le> k * B" by simp_all
    with assms(1) have "k - 1 < q" "q \<le> k" by simp_all
    then have "q = k" by simp
    with q k0 have "?N - (k - 1) * B = B" by (cases k) simp_all
    with True show ?thesis by (simp add: block_def)
  next
    case False
    define q r where "q = ?N div B" and "r = ?N mod B"
    then have Nq: "?N = q * B + r" and r: "0 < r" "r < B" using False assms(1) by simp_all
    from b(1) Nq r have "(k - 1) * B < (q + 1) * B" by simp
    then have "k - 1 < q + 1" by (rule mult_less_cancel2[THEN iffD1, THEN conjunct2])
    moreover from b(2) Nq r have "q * B < k * B" by linarith
    then have "q < k" by (rule mult_less_cancel2[THEN iffD1, THEN conjunct2])
    ultimately have "k - 1 = q" by simp
    with Nq r False show ?thesis by (simp add: block_def r_def)
  qed
qed

text \<open>
  C3. For a payload of \<open>N > 0\<close> bytes, the block size \<open>B\<close> and a client that acknowledges
  the OACK, if there is one, and every block at once, the transfer writes \<open>\<lceil>N / B\<rceil>\<close> DATA
  packets, numbered from 1, that carry the consecutive blocks of the payload, \<open>N\<close> bytes
  in all; every block but the last has \<open>B\<close> bytes; and the transfer ends as sent, with
  nothing written after the last block. That block has \<open>N mod B\<close> bytes, but \<open>B\<close> bytes
  when \<open>N mod B = 0\<close>: the final block is then not shorter than the block size, and the
  empty DATA packet that TFTP needs to end such a transfer is not sent.
\<close>

theorem transfer_sends_blocks:
  assumes "pxelinux \<noteq> []"
    and "B = bsize_of req" and "k = block_count (length pxelinux) B"
    and "incoming c =
           (if BlockSize req > 0 then [Datagram (ack_packet 0)] else []) @ prompt_acks 1 k @ rest"
  shows "transfer req pxelinux (Inr c) =
           (Sent,
            Some \<lparr>incoming = rest,
                  written = written c @ (if BlockSize req > 0 then [oack_packet req] else []) @
                    map (\<lambda>i. data_packet (1 + of_nat i) (block B pxelinux i)) [0 ..< k]\<rparr>) \<and>
         concat (map (block B pxelinux) [0 ..< k]) = pxelinux \<and>
         0 < k \<and> (\<forall>i. Suc i < k \<longrightarrow> length (block B pxelinux i) = B) \<and>
         length (block B pxelinux (k - 1)) =
           (if length pxelinux mod B = 0 then B else length pxelinux mod B)"
proof -
  have B: "0 < B" using assms(2) by (simp add: bsize_of_def)
  have k: "k = block_count (length pxelinux) (bsize_of req)" using assms(2,3) by simp
  have t: "transfer req pxelinux (Inr c) =
           (Sent,
            Some \<lparr>incoming = rest,
                  written = written c @ (if BlockSize req > 0 then [oack_packet req] else []) @
                    map (\<lambda>i. data_packet (1 + of_nat i) (block B pxelinux i)) [0 ..< k]\<rparr>)"
  proof (cases "BlockSize req > 0")
    case True
    with assms(4) have "incoming c = Datagram (ack_packet 0) # (prompt_acks 1 k @ rest)" by simp
    from sendPacket_acked[OF this, of "oack_packet req"]
    have "sendPacket (oack_packet req) 0 c =
          (None, \<lparr>incoming = prompt_acks 1 k @ rest, written = written c @ [oack_packet req]\<rparr>)" .
    with True send_blocks_prompt[OF k, of 1 rest "written c @ [oack_packet req]"] assms(2)
    show ?thesis by (simp add: transfer_def)
  next
    case False
    with assms(4) have "c = \<lparr>incoming = prompt_acks 1 k @ rest, written = written c\<rparr>" by simp
    with False send_blocks_prompt[OF k, of 1 rest "written c"] assms(2)
    show ?thesis by (simp add: transfer_def)
  qed
  from concat_blocks[OF B assms(3)] block_lengths[OF B assms(1,3)] t show ?thesis by blast
qed


theorem transfer_sends_blocks_witness:
  "''0123456789abcdef'' \<noteq> [] \<and>
   length ''0123456789abcdef'' mod bsize_of \<lparr>Filename = ''pxelinux.0'', BlockSize = 8\<rparr> = 0 \<and>
   transfer \<lparr>Filename = ''pxelinux.0'', BlockSize = 8\<rparr> ''0123456789abcdef''
     (Inr \<lparr>incoming = [Datagram [CHR 0x00, CHR 0x04, CHR 0x00, CHR 0x00],
                       Datagram [CHR 0x00, CHR 0x04, CHR 0x00, CHR 0x01],
                       Datagram [CHR 0x00, CHR 0x04, CHR 0x00, CHR 0x02]],
           written = []\<rparr>) =
   (Sent,
    Some \<lparr>incoming = [],
          written = [oack_packet \<lparr>Filename = ''pxelinux.0'', BlockSize = 8\<rparr>,
                     data_packet 1 ''01234567'', data_packet 2 ''89abcdef'']\<rparr>) \<and>
   length (block 8 ''0123456789abcdef'' (2 - 1)) = 8"
proof -
  let ?req = "\<lparr>Filename = ''pxelinux.0'', BlockSize = 8\<rparr>"
  let ?c = "\<lparr>incoming = [Datagram [CHR 0x00, CHR 0x04, CHR 0x00, CHR 0x00],
                         Datagram [CHR 0x00, CHR 0x04, CHR 0x00, CHR 0x01],
                         Datagram [CHR 0x00, CHR 0x04, CHR 0x00, CHR 0x02]],
             written = []\<rparr>"
  have 1: "''0123456789abcdef'' \<noteq> []" by simp
  have 2: "8 = bsize_of ?req" by (simp add: bsize_of_def)
  have 3: "2 = block_count (length ''0123456789abcdef'') 8" by (simp add: block_count_def)
  have 4: "incoming ?c =
      (if BlockSize ?req > 0 then [Datagram (ack_packet 0)] else []) @ prompt_acks 1 2 @ []"
    by code_simp
  have 5: "written ?c @ (if BlockSize ?req > 0 then [oack_packet ?req] else []) @
      map (\<lambda>i. data_packet (1 + of_nat i) (block 8 ''0123456789abcdef'' i)) [0 ..< 2] =
      [oack_packet ?req, data_packet 1 ''01234567'', data_packet 2 ''89abcdef'']"
    by code_simp
  have 6: "length ''0123456789abcdef'' mod bsize_of ?req = 0" by (simp add: bsize_of_def)
  from transfer_sends_blocks[OF 1 2 3 4] 6 show ?thesis
    unfolding 5 by (simp add: bsize_of_def)
qed

subsection \<open>The option acknowledgement\<close>

lemma block_shift:
  "block B (drop (min (length xs) B) xs) i = block B xs (Suc i)"
proof (cases "B \<le> length xs")
  case True
  then show ?thesis by (simp add: block_def min_def add.commute)
next
  case False
  then show ?thesis by (simp add: block_def min_def)
qed

lemma data_run_Nil: "data_run B xs seq [] = []"
  by (simp add: data_run_def)

lemma data_run_Cons:
  "data_run B xs seq (n # ns) =
     replicate n (data_packet seq (block B xs 0)) @
     data_run B (drop (min (length xs) B) xs) (seq + 1) ns"
proof -
  have z: "zip [0 ..< Suc (length ns)] (n # ns) =
           (0, n) # map (\<lambda>(i, n). (Suc i, n)) (zip [0 ..< length ns] ns)"
    by (simp add: upt_conv_Cons map_Suc_upt[symmetric] zip_map1 del: upt_Suc)
  show ?thesis
    by (auto simp: data_run_def z block_shift comp_def add.assoc simp del: upt_Suc
        intro!: arg_cong[where f = concat])
qed

lemma send_blocks_cut:
  "\<exists>ns. written (snd (send_blocks req toTX seq c)) =
          written c @ data_run (bsize_of req) toTX seq ns \<and>
        list_all (\<lambda>n. 0 < n) ns \<and>
        length ns \<le> block_count (length toTX) (bsize_of req) \<and>
        (fst (send_blocks req toTX seq c) = None \<longrightarrow>
           length ns = block_count (length toTX) (bsize_of req))"
proof (induction req toTX seq c rule: send_blocks.induct)
  case (1 req toTX seq c)
  let ?B = "bsize_of req"
  have B: "0 < ?B" by (simp add: bsize_of_def)
  show ?case
  proof (cases "toTX = []")
    case True
    then have "send_blocks req toTX seq c = (None, c)" by (simp add: send_blocks.simps)
    with True B show ?thesis
      using block_count_0[of ?B 0] by (intro exI[of _ "[]"]) (simp add: data_run_Nil)
  next
    case False
    define l where "l = (if length toTX > ?B then ?B else length toTX)"
    have lm: "l = min (length toTX) ?B" by (simp add: l_def min_def)
    have b0: "take l toTX = block ?B toTX 0" by (simp add: block_def l_def)
    from False have N: "0 < length toTX" by simp
    have bc: "block_count (length toTX) ?B = Suc (block_count (length (drop l toTX)) ?B)"
      using block_count_step[OF B N] by (simp add: lm)
    obtain r c' where sp: "sendPacket (data_packet seq (take l toTX)) seq c = (r, c')"
      by (cases "sendPacket (data_packet seq (take l toTX)) seq c")
    from sendPacket_tries_written[of numRetries "data_packet seq (take l toTX)" seq c] sp
    obtain k where w: "written c' = written c @ replicate k (data_packet seq (take l toTX))"
      and k: "0 < k"
      by (auto simp: sendPacket_def numRetries_def)
    show ?thesis
    proof (cases r)
      case None
      from "1.IH"[OF False l_def sp[symmetric] None]
      obtain ns where nsc: "written (snd (send_blocks req (drop l toTX) (seq + 1) c')) =
            written c' @ data_run ?B (drop l toTX) (seq + 1) ns \<and>
        list_all (\<lambda>n. 0 < n) ns \<and>
        length ns \<le> block_count (length (drop l toTX)) ?B \<and>
        (fst (send_blocks req (drop l toTX) (seq + 1) c') = None \<longrightarrow>
           length ns = block_count (length (drop l toTX)) ?B)" ..
      note ns = nsc[THEN conjunct1] nsc[THEN conjunct2, THEN conjunct1]
        nsc[THEN conjunct2, THEN conjunct2, THEN conjunct1]
        nsc[THEN conjunct2, THEN conjunct2, THEN conjunct2]
      have e: "send_blocks req toTX seq c = send_blocks req (drop l toTX) (seq + 1) c'"
        using False sp None by (subst send_blocks.simps) (simp add: l_def[symmetric] Let_def)
      have "written (snd (send_blocks req toTX seq c)) =
            written c' @ data_run ?B (drop l toTX) (seq + 1) ns"
        unfolding e by (rule ns(1))
      also have "\<dots> = written c @ data_run ?B toTX seq (k # ns)"
        by (simp add: w data_run_Cons b0[symmetric] lm[symmetric])
      finally have "written (snd (send_blocks req toTX seq c)) =
            written c @ data_run ?B toTX seq (k # ns)" .
      with ns(2,3,4) k bc e show ?thesis
        by (intro exI[of _ "k # ns"]) simp
    next
      case (Some err)
      have e: "send_blocks req toTX seq c = (Some err, c')"
        using False sp Some by (subst send_blocks.simps) (simp add: l_def[symmetric] Let_def)
      have "written (snd (send_blocks req toTX seq c)) = written c @ data_run ?B toTX seq [k]"
        unfolding e data_run_Cons data_run_Nil using w b0 by simp
      with k bc e show ?thesis
        by (intro exI[of _ "[k]"]) simp
    qed
  qed
qed

lemma transfer_cut:
  assumes "BlockSize req > 0"
  shows "\<exists>k ns c'. snd (transfer req pxelinux (Inr c)) = Some c' \<and>
           written c' = written c @ replicate k (oack_packet req) @
                          data_run (bsize_of req) pxelinux 1 ns \<and>
           0 < k \<and> list_all (\<lambda>n. 0 < n) ns \<and>
           length ns \<le> block_count (length pxelinux) (bsize_of req) \<and>
           (fst (transfer req pxelinux (Inr c)) = Sent \<longrightarrow>
              length ns = block_count (length pxelinux) (bsize_of req))"
proof -
  obtain r c1 where sp: "sendPacket (oack_packet req) 0 c = (r, c1)"
    by (cases "sendPacket (oack_packet req) 0 c")
  from sendPacket_tries_written[of numRetries "oack_packet req" 0 c] sp
  obtain k where w: "written c1 = written c @ replicate k (oack_packet req)" and k: "0 < k"
    by (auto simp: sendPacket_def numRetries_def)
  show ?thesis
  proof (cases r)
    case None
    obtain r2 c2 where sb: "send_blocks req pxelinux 1 c1 = (r2, c2)"
      by (cases "send_blocks req pxelinux 1 c1")
    from send_blocks_cut[of req pxelinux 1 c1]
    obtain ns where nsc: "written (snd (send_blocks req pxelinux 1 c1)) =
          written c1 @ data_run (bsize_of req) pxelinux 1 ns \<and>
        list_all (\<lambda>n. 0 < n) ns \<and>
        length ns \<le> block_count (length pxelinux) (bsize_of req) \<and>
        (fst (send_blocks req pxelinux 1 c1) = None \<longrightarrow>
           length ns = block_count (length pxelinux) (bsize_of req))" ..
    from nsc sb have ns: "written c2 = written c1 @ data_run (bsize_of req) pxelinux 1 ns"
        "list_all (\<lambda>n. 0 < n) ns"
        "length ns \<le> block_count (length pxelinux) (bsize_of req)"
        "r2 = None \<longrightarrow> length ns = block_count (length pxelinux) (bsize_of req)"
      by simp_all
    have t: "transfer req pxelinux (Inr c) =
        ((case r2 of None \<Rightarrow> Sent | Some err \<Rightarrow> DataFailed err), Some c2)"
      using sp sb None assms by (cases r2) (simp_all add: transfer_def)
    have "fst (transfer req pxelinux (Inr c)) = Sent \<longrightarrow> r2 = None"
      unfolding t by (cases r2) simp_all
    with ns w k t show ?thesis
      by (intro exI[of _ k] exI[of _ ns] exI[of _ c2]) simp
  next
    case (Some e)
    have t: "transfer req pxelinux (Inr c) = (OackFailed e, Some c1)"
      using sp Some assms by (simp add: transfer_def)
    from w k t show ?thesis
      by (intro exI[of _ k] exI[of _ "[]"] exI[of _ c1]) (simp add: data_run_Nil)
  qed
qed

lemma digits_1450: "Sprintf_d 1450 = ''1450''"
  by code_simp

lemma Atoi_1450: "Atoi ''1450'' = Some 1450"
  by code_simp

text \<open>
  C10. An accepted read request whose block size option (the last one, if the option is
  named more than once) reads as \<open>v\<close> with \<open>1450 < v \<le> 65464\<close> is parsed to the block size
  \<open>min v 1450 = 1450\<close>. The OACK advertises the block size of the transfer, \<open>"1450"\<close>,
  which does not read as \<open>v\<close>, and that size is the one that cuts the payload: whatever
  the client answers, the transfer writes the OACK, once or more, and then nothing but
  DATA packets numbered from 1 whose payloads are the consecutive runs of 1450 bytes of
  the file, each once or more and in order; a transfer that ends as sent has written
  every one of the \<open>\<lceil>N / 1450\<rceil>\<close> blocks, the whole file.
\<close>

theorem oack_advertises_clamped_blksize:
  assumes "nul_free fname"
    and "list_all (\<lambda>(name, val). nul_free name \<and> nul_free val) opts"
    and "parseRRQ (rrq_packet fname opts) = Inr req"
    and "requested_blksize opts = Some vs" and "Atoi vs = Some v"
    and "1450 < v" and "v \<le> 65464"
  shows "BlockSize req = min v 1450 \<and> int (bsize_of req) = min v 1450 \<and>
         oack_packet req =
           [CHR 0x00, CHR 0x06] @ ''blksize'' @ [CHR 0x00] @ Sprintf_d (int (bsize_of req)) @ [CHR 0x00] \<and>
         Sprintf_d (int (bsize_of req)) = ''1450'' \<and> Atoi ''1450'' \<noteq> Some v \<and>
         (\<exists>k ns c'. snd (transfer req pxelinux (Inr c)) = Some c' \<and>
            written c' = written c @ replicate k (oack_packet req) @ data_run 1450 pxelinux 1 ns \<and>
            0 < k \<and> list_all (\<lambda>n. 0 < n) ns \<and>
            length ns \<le> block_count (length pxelinux) 1450 \<and>
            (fst (transfer req pxelinux (Inr c)) = Sent \<longrightarrow>
               length ns = block_count (length pxelinux) 1450 \<and>
               concat (map (block 1450 pxelinux) [0 ..< length ns]) = pxelinux))"
proof -
  from assms(1,3) have "parse_options (encode_options opts) \<lparr>Filename = fname, BlockSize = 0\<rparr> = Inr req"
    by (simp add: parseRRQ_packet nul_free_def)
  from parse_encoded_options[OF assms(2) this] assms(4,5,6)
  have bs: "BlockSize req = 1450" by simp
  then have b: "bsize_of req = 1450" by (simp add: bsize_of_def)
  from bs b have o: "oack_packet req =
      [CHR 0x00, CHR 0x06] @ ''blksize'' @ [CHR 0x00] @ Sprintf_d (int (bsize_of req)) @ [CHR 0x00]"
    by (simp add: oack_packet_def)
  from b have d: "Sprintf_d (int (bsize_of req)) = ''1450''" by (simp add: digits_1450)
  from assms(6) have n: "Atoi ''1450'' \<noteq> Some v" by (simp add: Atoi_1450)
  from assms(6) have m: "min v 1450 = 1450" by simp
  from bs have "0 < BlockSize req" by simp
  from transfer_cut[OF this, of pxelinux c] obtain k ns c' where
    t: "snd (transfer req pxelinux (Inr c)) = Some c' \<and>
        written c' = written c @ replicate k (oack_packet req) @ data_run 1450 pxelinux 1 ns \<and>
        0 < k \<and> list_all (\<lambda>n. 0 < n) ns \<and>
        length ns \<le> block_count (length pxelinux) 1450 \<and>
        (fst (transfer req pxelinux (Inr c)) = Sent \<longrightarrow>
           length ns = block_count (length pxelinux) 1450)"
    unfolding b by (elim exE) (rule that)
  have "concat (map (block 1450 pxelinux) [0 ..< length ns]) = pxelinux"
    if "length ns = block_count (length pxelinux) 1450"
    using concat_blocks[of 1450 "length ns" pxelinux] that by simp
  with t have "\<exists>k ns c'. snd (transfer req pxelinux (Inr c)) = Some c' \<and>
        written c' = written c @ replicate k (oack_packet req) @ data_run 1450 pxelinux 1 ns \<and>
        0 < k \<and> list_all (\<lambda>n. 0 < n) ns \<and>
        length ns \<le> block_count (length pxelinux) 1450 \<and>
        (fst (transfer req pxelinux (Inr c)) = Sent \<longrightarrow>
           length ns = block_count (length pxelinux) 1450 \<and>
           concat (map (block 1450 pxelinux) [0 ..< length ns]) = pxelinux)"
    by (intro exI[of _ k] exI[of _ ns] exI[of _ c']) simp
  with bs b o d n m show ?thesis by simp
qed

lemma parseRRQ_blksize_4096:
  "parseRRQ (rrq_packet ''foo'' [(''blksize'', ''4096'')]) = Inr \<lparr>Filename = ''foo'', BlockSize = 1450\<rparr>"
  by code_simp

lemma Atoi_4096: "Atoi ''4096'' = Some 4096" by code_simp

theorem oack_advertises_clamped_blksize_witness:
  "parseRRQ (rrq_packet ''foo'' [(''blksize'', ''4096'')]) = Inr \<lparr>Filename = ''foo'', BlockSize = 1450\<rparr> \<and>
   requested_blksize [(''blksize'', ''4096'')] = Some ''4096'' \<and> Atoi ''4096'' = Some 4096 \<and>
   oack_packet \<lparr>Filename = ''foo'', BlockSize = 1450\<rparr> = [CHR 0x00, CHR 0x06] @ ''blksize'' @ [CHR 0x00] @ ''1450'' @ [CHR 0x00] \<and>
   transfer \<lparr>Filename = ''foo'', BlockSize = 1450\<rparr> ''abc''
     (Inr \<lparr>incoming = [Datagram [CHR 0x00, CHR 0x04, CHR 0x00, CHR 0x00],
                       Datagram [CHR 0x00, CHR 0x04, CHR 0x00, CHR 0x01]],
           written = []\<rparr>) =
     (Sent, Some \<lparr>incoming = [],
                  written = [oack_packet \<lparr>Filename = ''foo'', BlockSize = 1450\<rparr>, data_packet 1 ''abc'']\<rparr>) \<and>
   (\<exists>k ns. [oack_packet \<lparr>Filename = ''foo'', BlockSize = 1450\<rparr>, data_packet 1 ''abc''] =
             replicate k (oack_packet \<lparr>Filename = ''foo'', BlockSize = 1450\<rparr>) @ data_run 1450 ''abc'' 1 ns \<and>
           0 < k \<and> list_all (\<lambda>n. 0 < n) ns \<and>
           length ns = block_count (length ''abc'') 1450 \<and>
           concat (map (block 1450 ''abc'') [0 ..< length ns]) = ''abc'')"
proof -
  let ?req = "\<lparr>Filename = ''foo'', BlockSize = 1450\<rparr>"
  let ?c = "\<lparr>incoming = [Datagram [CHR 0x00, CHR 0x04, CHR 0x00, CHR 0x00],
                         Datagram [CHR 0x00, CHR 0x04, CHR 0x00, CHR 0x01]],
             written = []\<rparr>"
  have 1: "nul_free ''foo''" by (simp add: nul_free_def)
  have 2: "list_all (\<lambda>(name, val). nul_free name \<and> nul_free val) [(''blksize'', ''4096'')]"
    by (simp add: nul_free_def)
  have 4: "requested_blksize [(''blksize'', ''4096'')] = Some ''4096''"
    by (simp add: requested_blksize_def)
  have 6: "(1450::int) < 4096" "(4096::int) \<le> 65464" by simp_all
  have t: "transfer ?req ''abc'' (Inr ?c) =
      (Sent, Some \<lparr>incoming = [], written = [oack_packet ?req, data_packet 1 ''abc'']\<rparr>)"
    by code_simp
  note c = oack_advertises_clamped_blksize[OF 1 2 parseRRQ_blksize_4096 4 Atoi_4096 6,
      of "''abc''" ?c]
  note c3 = c[THEN conjunct2, THEN conjunct2, THEN conjunct1]
  note c4 = c[THEN conjunct2, THEN conjunct2, THEN conjunct2, THEN conjunct1]
  note c6 = c[THEN conjunct2, THEN conjunct2, THEN conjunct2, THEN conjunct2, THEN conjunct2]
  have o: "oack_packet ?req = [CHR 0x00, CHR 0x06] @ ''blksize'' @ [CHR 0x00] @ ''1450'' @ [CHR 0x00]"
    using c3[unfolded c4] .
  from c6 obtain k ns c' where
    e: "snd (transfer ?req ''abc'' (Inr ?c)) = Some c' \<and>
        written c' = written ?c @ replicate k (oack_packet ?req) @ data_run 1450 ''abc'' 1 ns \<and>
        0 < k \<and> list_all (\<lambda>n. 0 < n) ns \<and>
        length ns \<le> block_count (length ''abc'') 1450 \<and>
        (fst (transfer ?req ''abc'' (Inr ?c)) = Sent \<longrightarrow>
           length ns = block_count (length ''abc'') 1450 \<and>
           concat (map (block 1450 ''abc'') [0 ..< length ns]) = ''abc'')"
    by (elim exE) (rule that)
  from e have "\<exists>k ns. [oack_packet ?req, data_packet 1 ''abc''] =
             replicate k (oack_packet ?req) @ data_run 1450 ''abc'' 1 ns \<and>
           0 < k \<and> list_all (\<lambda>n. 0 < n) ns \<and>
           length ns = block_count (length ''abc'') 1450 \<and>
           concat (map (block 1450 ''abc'') [0 ..< length ns]) = ''abc''"
    unfolding t by (intro exI[of _ k] exI[of _ ns]) auto
  with parseRRQ_blksize_4096 4 Atoi_4096 o t show ?thesis by simp
qed
section \<open>Properties of the lease pool\<close>

subsection \<open>The store and the listing\<close>

lemma next_request_serving:
  "serving s \<Longrightarrow> \<exists>s'. next_request s = (False, s') \<and> leases_dir s' = leases_dir s \<and> serving s'"
  by (cases "faults s") (auto simp: next_request_def serving_def)

lemma next_request_dir:
  "leases_dir (snd (next_request s)) = leases_dir s"
  by (cases "faults s") (auto simp: next_request_def)

lemma Leases_nodes_own:
  assumes "distinct (map fst nodes)" "list_all own_key nodes" "distinct (map fst acc)"
  shows "\<exists>m. Leases_nodes nodes acc = Inr m \<and> distinct (map fst m) \<and>
           map_of m = (\<lambda>k. case map_of nodes k of None \<Rightarrow> map_of acc k | Some v \<Rightarrow> json_Unmarshal v)"
  using assms
proof (induction nodes arbitrary: acc)
  case Nil
  then show ?case by simp
next
  case (Cons node nodes)
  obtain k v where node: "node = (k, v)" by (cases node)
  from Cons.prems(2) node obtain l where l: "json_Unmarshal v = Some l" "IP l = k"
    by (auto simp: own_key_def split: option.splits)
  from Cons.prems node have d: "distinct (map fst nodes)" "list_all own_key nodes"
    and k: "map_of nodes k = None"
    by (auto simp: map_of_eq_None_iff)
  have da: "distinct (map fst (AList.update k l acc))"
    using Cons.prems(3) by (rule distinct_update)
  from Cons.IH[OF d da] obtain m where m: "Leases_nodes nodes (AList.update k l acc) = Inr m"
    "distinct (map fst m)"
    "map_of m = (\<lambda>k'. case map_of nodes k' of None \<Rightarrow> map_of (AList.update k l acc) k' | Some v \<Rightarrow> json_Unmarshal v)"
    by blast
  have "map_of m = (\<lambda>k'. case map_of (node # nodes) k' of None \<Rightarrow> map_of acc k' | Some v \<Rightarrow> json_Unmarshal v)"
    unfolding m(3) using k l node by (auto simp: update_conv' fun_eq_iff split: option.splits)
  with m(1,2) l node show ?case by simp
qed

lemma Leases_well_kept:
  assumes "well_kept s" "serving s"
  shows "\<exists>m s1. Leases p s = (Inr m, s1) \<and> distinct (map fst m) \<and> map_of m = stored s \<and>
           stored s1 = stored s \<and> well_kept s1 \<and> serving s1"
proof -
  from next_request_serving[OF assms(2)] obtain s' where
    s': "next_request s = (False, s')" "leases_dir s' = leases_dir s" "serving s'" by blast
  show ?thesis
  proof (cases "leases_dir s")
    case None
    from next_request_serving[OF s'(3)] obtain s'' where
      s'': "next_request s' = (False, s'')" "leases_dir s'' = leases_dir s'" "serving s''" by blast
    have "Leases p s = (Inr [], s''\<lparr>leases_dir := Some []\<rparr>)"
      using None s' s'' by (simp add: Leases_def etcd_Get_def etcd_SetDir_def)
    moreover have "stored s = Map.empty" using None by (simp add: stored_def nodes_of_def fun_eq_iff)
    moreover have "stored (s''\<lparr>leases_dir := Some []\<rparr>) = Map.empty"
      by (simp add: stored_def nodes_of_def fun_eq_iff)
    moreover have "well_kept (s''\<lparr>leases_dir := Some []\<rparr>)" by (simp add: well_kept_def nodes_of_def)
    moreover have "serving (s''\<lparr>leases_dir := Some []\<rparr>)" using s''(3) by (simp add: serving_def)
    ultimately show ?thesis by simp
  next
    case (Some nodes)
    from assms(1) Some have wk: "distinct (map fst nodes)" "list_all own_key nodes"
      by (simp_all add: well_kept_def nodes_of_def)
    have "distinct (map fst ([] :: (ip \<times> Lease) list))" by simp
    from Leases_nodes_own[OF wk this] obtain m where
      m: "Leases_nodes nodes [] = Inr m" "distinct (map fst m)"
         "map_of m = (\<lambda>k. case map_of nodes k of None \<Rightarrow> map_of [] k | Some v \<Rightarrow> json_Unmarshal v)"
      by blast
    have "Leases p s = (Inr m, s')"
      using Some s' m(1) by (simp add: Leases_def etcd_Get_def)
    moreover have "map_of m = stored s"
      using m(3) Some by (simp add: stored_def nodes_of_def fun_eq_iff split: option.splits)
    moreover have "stored s' = stored s" using s'(2) by (simp add: stored_def nodes_of_def fun_eq_iff)
    moreover have "well_kept s'" using assms(1) s'(2) by (simp add: well_kept_def nodes_of_def)
    ultimately show ?thesis using m(2) s'(3) by simp
  qed
qed

lemma list_all_update:
  "list_all P al \<Longrightarrow> P (k, v) \<Longrightarrow> list_all P (AList.update k v al)"
  by (induction al) auto

lemma etcd_Set_nodes:
  "nodes_of (snd (etcd_Set k v s)) = nodes_of s \<or>
   nodes_of (snd (etcd_Set k v s)) = AList.update k v (nodes_of s)"
  by (cases "faults s"; cases "leases_dir s")
     (auto simp: etcd_Set_def next_request_def nodes_of_def split: bool.splits)

lemma Store_effect:
  "stored (snd (Store p l s)) = stored s \<or> stored (snd (Store p l s)) = (stored s)(IP l \<mapsto> l)"
proof -
  have "nodes_of (snd (Store p l s)) = nodes_of (snd (etcd_Set (IP l) (Json l) s))"
    by (simp add: Store_def json_Marshal_def split: prod.splits option.splits)
  with etcd_Set_nodes[of "IP l" "Json l" s] show ?thesis
    by (auto simp: stored_def update_conv' fun_eq_iff)
qed

lemma Store_well_kept:
  assumes "well_kept s"
  shows "well_kept (snd (Store p l s))"
proof -
  have n: "nodes_of (snd (Store p l s)) = nodes_of (snd (etcd_Set (IP l) (Json l) s))"
    by (simp add: Store_def json_Marshal_def split: prod.splits option.splits)
  have "own_key (IP l, Json l)" by (simp add: own_key_def)
  with assms etcd_Set_nodes[of "IP l" "Json l" s] show ?thesis
    unfolding well_kept_def n by (auto simp: distinct_update list_all_update)
qed

lemma Store_serving:
  assumes "serving s"
  shows "\<exists>s'. Store p l s = (None, s') \<and> stored s' = (stored s)(IP l \<mapsto> l) \<and> serving s'"
proof -
  from next_request_serving[OF assms] obtain s1 where
    s1: "next_request s = (False, s1)" "leases_dir s1 = leases_dir s" "serving s1" by blast
  let ?s' = "s1\<lparr>leases_dir := Some (AList.update (IP l) (Json l) (nodes_of s))\<rparr>"
  have "Store p l s = (None, ?s')"
    using s1 by (simp add: Store_def etcd_Set_def json_Marshal_def nodes_of_def)
  moreover have "stored ?s' = (stored s)(IP l \<mapsto> l)"
    by (auto simp: stored_def nodes_of_def update_conv' fun_eq_iff)
  moreover have "serving ?s'" using s1(3) by (simp add: serving_def)
  ultimately show ?thesis by blast
qed

lemma set_map_filter_eq:
  "set (List.map_filter f xs) = {y. \<exists>x \<in> set xs. f x = Some y}"
  by (induction xs) (auto split: option.splits)

lemma set_go_range:
  assumes "distinct (map fst m)"
  shows "set (go_range ks m) = ran (map_of m)"
proof -
  have "set (go_range ks m) =
        {v. \<exists>k \<in> set ks. map_of m k = Some v} \<union> {v. \<exists>k. (k, v) \<in> set m \<and> k \<notin> set ks}"
    by (auto simp: go_range_def set_map_filter_eq image_iff)
  also have "\<dots> = {v. \<exists>k. (k, v) \<in> set m}"
    using assms by (auto dest: map_of_SomeD)
  also have "\<dots> = ran (map_of m)"
    using assms by (auto simp: ran_def dest: map_of_SomeD)
  finally show ?thesis .
qed

text \<open>Every order of the entries of a map is the order of some seed.\<close>

lemma map_filter_map_of:
  assumes "distinct (map fst m)" "set m' \<subseteq> set m"
  shows "List.map_filter (map_of m) (map fst m') = map snd m'"
  using assms(2)
proof (induction m')
  case Nil
  then show ?case by simp
next
  case (Cons kv m')
  obtain k v where kv: "kv = (k, v)" by (cases kv)
  with Cons.prems assms(1) have "map_of m k = Some v" by simp
  with Cons kv show ?case by simp
qed

lemma go_range_any_order:
  assumes "distinct (map fst m)" "distinct (map fst m')" "set m' = set m"
  shows "go_range (map fst m') m = map snd m'"
proof -
  have f: "filter (\<lambda>kv. fst kv \<notin> set (map fst m')) m = []"
    using assms(3) by (auto simp: filter_empty_conv)
  have r: "remdups (map fst m') = map fst m'" using assms(2) by (rule distinct_remdups_id)
  have "List.map_filter (map_of m) (map fst m') = map snd m'"
    using map_filter_map_of[OF assms(1), of m'] assms(3) by simp
  then show ?thesis unfolding go_range_def r f by simp
qed

lemma go_range_Nil: "go_range ks [] = []"
  by (simp add: go_range_def List.map_filter_def)

lemma find_first_index:
  "find P [0 ..< n] = Some i \<longleftrightarrow> i < n \<and> P i \<and> (\<forall>j < i. \<not> P j)"
  by (auto simp: find_Some_iff)

lemma find_no_index:
  "find P [0 ..< n] = None \<longleftrightarrow> (\<forall>i < n. \<not> P i)"
  by (auto simp: find_None_iff)

lemma newLease_renewed:
  "newLease (Nic l) (IP l) (expireDuration p) (Some (FirstAssigned l)) stamp = renewed p l stamp"
  by (simp add: newLease_def renewed_def)

lemma newLease_fresh:
  "newLease nic a (expireDuration p) None stamp = fresh p nic a stamp"
  by (simp add: newLease_def fresh_def)

lemma stored_own_key:
  assumes "well_kept s" "stored s k = Some l"
  shows "IP l = k"
proof -
  from assms(2) obtain v where v: "map_of (nodes_of s) k = Some v" "json_Unmarshal v = Some l"
    by (auto simp: stored_def split: option.splits)
  then have "(k, v) \<in> set (nodes_of s)" by (auto dest: map_of_SomeD)
  with assms(1) have "own_key (k, v)" by (auto simp: well_kept_def list_all_iff)
  with v(2) show ?thesis by (simp add: own_key_def)
qed

lemma list_ex_ran:
  assumes "distinct (map fst m)"
  shows "list_ex P (map snd m) \<longleftrightarrow> (\<exists>l \<in> ran (map_of m). P l)"
proof -
  have "set (map snd m) = {v. \<exists>k. (k, v) \<in> set m}" by force
  also have "\<dots> = ran (map_of m)"
    using assms by (auto simp: ran_def dest: map_of_SomeD)
  finally show ?thesis by (simp add: list_ex_iff)
qed

lemma same_dir:
  "leases_dir s' = leases_dir s \<Longrightarrow> stored s' = stored s \<and> well_kept s' = well_kept s"
  by (simp add: stored_def well_kept_def nodes_of_def fun_eq_iff)

lemma etcd_Get_dir: "leases_dir (snd (etcd_Get s)) = leases_dir s"
  by (cases "faults s") (auto simp: etcd_Get_def next_request_def split: bool.splits option.splits)

lemma Leases_any:
  assumes "well_kept s" and "Leases p s = (r, s1)"
  shows "well_kept s1 \<and> stored s1 = stored s \<and>
         (\<forall>m. r = Inr m \<longrightarrow> distinct (map fst m) \<and> map_of m = stored s)"
proof -
  obtain f s' where nr: "next_request s = (f, s')" by (cases "next_request s")
  then have d': "leases_dir s' = leases_dir s" using next_request_dir[of s] by simp
  show ?thesis
  proof (cases f)
    case True
    with nr assms(2) have "r = Inl (Etcd Unavailable)" "s1 = s'"
      by (simp_all add: Leases_def etcd_Get_def)
    with same_dir[OF d'] assms(1) show ?thesis by simp
  next
    case False
    show ?thesis
    proof (cases "leases_dir s")
      case None
      obtain f2 s'' where nr2: "next_request s' = (f2, s'')" by (cases "next_request s'")
      then have d'': "leases_dir s'' = leases_dir s'" using next_request_dir[of s'] by simp
      have e: "stored s = Map.empty" using None by (simp add: stored_def nodes_of_def fun_eq_iff)
      show ?thesis
      proof (cases f2)
        case True
        with nr nr2 False None d' d'' assms(2) have "r = Inl (Etcd Unavailable)" "s1 = s''"
          by (simp_all add: Leases_def etcd_Get_def etcd_SetDir_def)
        with same_dir[OF d'] same_dir[OF d''] assms(1) show ?thesis by simp
      next
        case f2: False
        with nr nr2 False None d' d'' assms(2) have "r = Inr []" "s1 = s''\<lparr>leases_dir := Some []\<rparr>"
          by (simp_all add: Leases_def etcd_Get_def etcd_SetDir_def)
        with e show ?thesis by (simp add: well_kept_def stored_def nodes_of_def fun_eq_iff)
      qed
    next
      case (Some nodes)
      from assms(1) Some have wk: "distinct (map fst nodes)" "list_all own_key nodes"
        by (simp_all add: well_kept_def nodes_of_def)
      have "distinct (map fst ([] :: (ip \<times> Lease) list))" by simp
      from Leases_nodes_own[OF wk this] obtain m where
        m: "Leases_nodes nodes [] = Inr m" "distinct (map fst m)"
           "map_of m = (\<lambda>k. case map_of nodes k of None \<Rightarrow> map_of [] k | Some v \<Rightarrow> json_Unmarshal v)"
        by blast
      have ms: "map_of m = stored s"
        using m(3) Some by (simp add: stored_def nodes_of_def fun_eq_iff split: option.splits)
      from nr False Some d' m(1) assms(2) have "r = Inr m" "s1 = s'"
        by (simp_all add: Leases_def etcd_Get_def)
      with same_dir[OF d'] assms(1) m(2) ms show ?thesis by simp
    qed
  qed
qed

lemma served_next:
  "served (Suc n) s \<Longrightarrow> \<exists>s'. next_request s = (False, s') \<and> leases_dir s' = leases_dir s \<and> served n s'"
  by (cases "faults s") (auto simp: next_request_def served_def)

lemma Leases_nodes_decodable:
  assumes "list_all decodable nodes" "distinct (map fst acc)"
  shows "\<exists>m. Leases_nodes nodes acc = Inr m \<and> distinct (map fst m) \<and>
           map_of m = map_of (rev (decoded nodes) @ acc)"
  using assms
proof (induction nodes arbitrary: acc)
  case Nil
  then show ?case by (simp add: decoded_def)
next
  case (Cons node nodes)
  from Cons.prems(1) obtain l where l: "json_Unmarshal (snd node) = Some l"
    by (auto simp: decodable_def)
  from Cons.prems(1) have rest: "list_all decodable nodes" by simp
  have da: "distinct (map fst (AList.update (IP l) l acc))"
    using Cons.prems(2) by (rule distinct_update)
  from Cons.IH[OF rest da] obtain m where m: "Leases_nodes nodes (AList.update (IP l) l acc) = Inr m"
    "distinct (map fst m)" "map_of m = map_of (rev (decoded nodes) @ AList.update (IP l) l acc)"
    by blast
  have "decoded (node # nodes) = (IP l, l) # decoded nodes" using l by (simp add: decoded_def)
  then have "map_of (rev (decoded (node # nodes)) @ acc) =
             map_of (rev (decoded nodes) @ AList.update (IP l) l acc)"
    by (simp add: update_conv' map_add_def fun_eq_iff split: option.splits)
  with m l show ?case by simp
qed

lemma Leases_nodes_invalid:
  "\<not> list_all decodable nodes \<Longrightarrow> Leases_nodes nodes acc = Inl ErrFoundInvalidLease"
  by (induction nodes arbitrary: acc) (auto simp: decodable_def split: option.splits)

text \<open>
  C8. When the store serves the request and every node of the subtree decodes, \<open>Leases\<close>
  returns the whole map from addresses to leases: one entry per address, the lease of the
  last node that decodes to the address, which in a well kept store is the table itself.
  When the subtree does not exist and the store serves two requests, \<open>Leases\<close> creates
  the empty directory and returns the empty map. When some node does not decode, the
  listing as a whole fails with \<open>ErrFoundInvalidLease\<close>; no record is dropped, and the
  store is left as it is.
\<close>

theorem Leases_listing:
  "(served 1 s \<and> leases_dir s = Some nodes \<and> list_all decodable nodes \<longrightarrow>
      (\<exists>m. Leases p s = (Inr m, snd (next_request s)) \<and> distinct (map fst m) \<and>
           map_of m = map_of (rev (decoded nodes)) \<and> (well_kept s \<longrightarrow> map_of m = stored s)) \<and>
      leases_dir (snd (Leases p s)) = leases_dir s) \<and>
   (served 2 s \<and> leases_dir s = None \<longrightarrow>
      (\<exists>s'. Leases p s = (Inr [], s') \<and> leases_dir s' = Some [])) \<and>
   (served 1 s \<and> leases_dir s = Some nodes \<and> \<not> list_all decodable nodes \<longrightarrow>
      Leases p s = (Inl ErrFoundInvalidLease, snd (next_request s)) \<and>
      leases_dir (snd (Leases p s)) = leases_dir s)"
proof (intro conjI impI; (elim conjE)?)
  assume sv: "served 1 s" and d: "leases_dir s = Some nodes" and ok: "list_all decodable nodes"
  from served_next[of 0 s] sv obtain s' where
    s': "next_request s = (False, s')" "leases_dir s' = leases_dir s" by auto
  have "distinct (map fst ([] :: (ip \<times> Lease) list))" by simp
  from Leases_nodes_decodable[OF ok this] obtain m where
    m: "Leases_nodes nodes [] = Inr m" "distinct (map fst m)" "map_of m = map_of (rev (decoded nodes))"
    by auto
  have L: "Leases p s = (Inr m, s')" using s' d m(1) by (simp add: Leases_def etcd_Get_def)
  have "map_of m = stored s" if "well_kept s"
    using Leases_any[OF that L] by simp
  with L m s' show "\<exists>m. Leases p s = (Inr m, snd (next_request s)) \<and> distinct (map fst m) \<and>
           map_of m = map_of (rev (decoded nodes)) \<and> (well_kept s \<longrightarrow> map_of m = stored s)"
    by auto
  from L s' show "leases_dir (snd (Leases p s)) = leases_dir s" by simp
next
  assume sv: "served 2 s" and d: "leases_dir s = None"
  have 2: "(2::nat) = Suc (Suc 0)" by simp
  from served_next[of 1 s] sv obtain s' where
    s': "next_request s = (False, s')" "leases_dir s' = leases_dir s" "served 1 s'"
    by (auto simp: 2)
  from served_next[of 0 s'] s'(3) obtain s'' where
    s'': "next_request s' = (False, s'')" "leases_dir s'' = leases_dir s'" by auto
  have "Leases p s = (Inr [], s''\<lparr>leases_dir := Some []\<rparr>)"
    using s' s'' d by (simp add: Leases_def etcd_Get_def etcd_SetDir_def)
  then show "\<exists>s'. Leases p s = (Inr [], s') \<and> leases_dir s' = Some []" by simp
next
  assume sv: "served 1 s" and d: "leases_dir s = Some nodes" and bad: "\<not> list_all decodable nodes"
  from served_next[of 0 s] sv obtain s' where
    s': "next_request s = (False, s')" "leases_dir s' = leases_dir s" by auto
  have L: "Leases p s = (Inl ErrFoundInvalidLease, s')"
    using s' d Leases_nodes_invalid[OF bad, of "[]"] by (simp add: Leases_def etcd_Get_def)
  with s' show "Leases p s = (Inl ErrFoundInvalidLease, snd (next_request s))" by simp
  from L s' show "leases_dir (snd (Leases p s)) = leases_dir s" by simp
qed

theorem Leases_listing_witness:
  "served 1 S1_aa \<and> list_all decodable [(0x0A00000A, Json (fresh S1_pool ''aa:aa'' 0x0A00000A 0))] \<and>
   leases_dir S1_aa = Some [(0x0A00000A, Json (fresh S1_pool ''aa:aa'' 0x0A00000A 0))] \<and>
   (\<exists>m. Leases S1_pool S1_aa = (Inr m, snd (next_request S1_aa)) \<and> distinct (map fst m) \<and>
        map_of m = map_of (rev (decoded [(0x0A00000A, Json (fresh S1_pool ''aa:aa'' 0x0A00000A 0))]))) \<and>
   served 2 S1_start \<and> leases_dir S1_start = None \<and>
   (\<exists>s'. Leases S1_pool S1_start = (Inr [], s') \<and> leases_dir s' = Some []) \<and>
   served 1 \<lparr>leases_dir = Some [(0x0A00000A, Garbage ''{'')], faults = []\<rparr> \<and>
   \<not> list_all decodable [(0x0A00000A, Garbage ''{'')] \<and>
   Leases S1_pool \<lparr>leases_dir = Some [(0x0A00000A, Garbage ''{'')], faults = []\<rparr> =
     (Inl ErrFoundInvalidLease, snd (next_request \<lparr>leases_dir = Some [(0x0A00000A, Garbage ''{'')], faults = []\<rparr>))"
proof -
  let ?nodes = "[(0x0A00000A :: ip, Json (fresh S1_pool ''aa:aa'' 0x0A00000A 0))]"
  let ?bad = "\<lparr>leases_dir = Some [(0x0A00000A, Garbage ''{'')], faults = []\<rparr>"
  have a: "served 1 S1_aa" "list_all decodable ?nodes" "leases_dir S1_aa = Some ?nodes"
    by (simp_all add: served_def S1_aa_def decodable_def)
  have b: "served 2 S1_start" "leases_dir S1_start = None"
    by (simp_all add: served_def S1_start_def)
  have c: "served 1 ?bad" "\<not> list_all decodable [(0x0A00000A, Garbage ''{'')]"
    "leases_dir ?bad = Some [(0x0A00000A, Garbage ''{'')]"
    by (simp_all add: served_def decodable_def)
  from Leases_listing[of S1_aa ?nodes S1_pool] Leases_listing[of S1_start "[]" S1_pool]
    Leases_listing[of ?bad "[(0x0A00000A, Garbage ''{'')]" S1_pool] a b c
  show ?thesis by blast
qed

subsection \<open>The policy of \<open>Assign\<close> and \<open>Request\<close>\<close>

text \<open>
  C1. On a well kept store that serves its requests, \<open>Assign\<close> follows the four steps
  in order and stops at the first that applies. (1) If some stored lease has the
  hardware identifier \<open>nic\<close>, one such lease is renewed and its address returned.
  (2) Otherwise, if for some \<open>i < rangeLen\<close> no lease is stored for \<open>startIP + i\<close>, the
  first such address gets a new lease for \<open>nic\<close> and is returned. (3) Otherwise, if some
  stored lease has \<open>expire_time < now\<close>, the address of one such lease is bound to \<open>nic\<close>
  by a new lease, whose first assignment is the time of the call, and returned.
  (4) Otherwise \<open>Assign\<close> fails with \<open>ErrLeasePoolIsFull\<close> and the table is unchanged.
\<close>

theorem Assign_policy:
  assumes "well_kept s" and "serving s"
    and "Assign p nic ks stamp now s = (r, s')"
  shows "well_kept s' \<and> serving s' \<and>
    (if \<exists>l \<in> ran (stored s). Nic l = nic then
       \<exists>l \<in> ran (stored s). Nic l = nic \<and> r = Inr (IP l) \<and>
          stored s' = (stored s)(IP l \<mapsto> renewed p l stamp)
     else if \<exists>i < nat (rangeLen p). stored s (IPAdd (startIP p) i) = None then
       \<exists>i < nat (rangeLen p). stored s (IPAdd (startIP p) i) = None \<and>
          (\<forall>j < i. stored s (IPAdd (startIP p) j) \<noteq> None) \<and>
          r = Inr (IPAdd (startIP p) i) \<and>
          stored s' = (stored s)(IPAdd (startIP p) i \<mapsto> fresh p nic (IPAdd (startIP p) i) stamp)
     else if \<exists>l \<in> ran (stored s). ExpireTime l < now then
       \<exists>l \<in> ran (stored s). ExpireTime l < now \<and> r = Inr (IP l) \<and>
          stored s' = (stored s)(IP l \<mapsto> fresh p nic (IP l) stamp)
     else r = Inl ErrLeasePoolIsFull \<and> stored s' = stored s)"
proof -
  from Leases_well_kept[OF assms(1,2)] obtain m s1 where
    L: "Leases p s = (Inr m, s1)" and d: "distinct (map fst m)" and m: "map_of m = stored s"
    and s1: "stored s1 = stored s" "well_kept s1" "serving s1"
    by blast
  have g: "set (go_range ks m) = ran (stored s)"
    using set_go_range[OF d] m by simp
  let ?sticky = "find (\<lambda>lease. Nic lease = nic) (go_range ks m)"
  let ?slot = "find (\<lambda>i. stored s (IPAdd (startIP p) i) = None) [0 ..< nat (rangeLen p)]"
  let ?expired = "find (\<lambda>lease. ExpireTime lease < now) (go_range ks m)"
  show ?thesis
  proof (cases ?sticky)
    case (Some l)
    then have l: "l \<in> ran (stored s)" "Nic l = nic"
      using g by (auto simp: find_Some_iff)
    from Store_serving[OF s1(3), of p "renewed p l stamp"] obtain s2 where
      s2: "Store p (renewed p l stamp) s1 = (None, s2)"
          "stored s2 = (stored s1)(IP (renewed p l stamp) \<mapsto> renewed p l stamp)" "serving s2"
      by blast
    from Store_well_kept[OF s1(2), of p "renewed p l stamp"] s2(1) have wk: "well_kept s2" by simp
    from assms(3) L Some l(2) s2(1) have rs: "r = Inr (IP l)" "s' = s2"
      using newLease_renewed[of l p stamp] by (simp_all add: Assign_def)
    from s2(2) s1(1) have "stored s2 = (stored s)(IP l \<mapsto> renewed p l stamp)"
      by (simp add: renewed_def)
    with rs wk s2(3) l show ?thesis by auto
  next
    case None
    then have no: "\<not> (\<exists>l \<in> ran (stored s). Nic l = nic)"
      using g by (auto simp: find_None_iff)
    show ?thesis
    proof (cases ?slot)
      case (Some i)
      then have i: "i < nat (rangeLen p)" "stored s (IPAdd (startIP p) i) = None"
        "\<forall>j < i. stored s (IPAdd (startIP p) j) \<noteq> None"
        by (auto simp: find_first_index)
      let ?a = "IPAdd (startIP p) i"
      from Store_serving[OF s1(3), of p "fresh p nic ?a stamp"] obtain s2 where
        s2: "Store p (fresh p nic ?a stamp) s1 = (None, s2)"
            "stored s2 = (stored s1)(IP (fresh p nic ?a stamp) \<mapsto> fresh p nic ?a stamp)" "serving s2"
        by blast
      from Store_well_kept[OF s1(2), of p "fresh p nic ?a stamp"] s2(1) have wk: "well_kept s2" by simp
      from assms(3) L None Some s2(1) have rs: "r = Inr ?a" "s' = s2"
        by (simp_all add: Assign_def m newLease_fresh)
      from s2(2) s1(1) have "stored s2 = (stored s)(?a \<mapsto> fresh p nic ?a stamp)"
        by (simp add: fresh_def)
      with rs wk s2(3) i no show ?thesis by auto
    next
      case slot: None
      then have ns: "\<not> (\<exists>i < nat (rangeLen p). stored s (IPAdd (startIP p) i) = None)"
        by (simp add: find_no_index)
      show ?thesis
      proof (cases ?expired)
        case (Some l)
        then have l: "l \<in> ran (stored s)" "ExpireTime l < now"
          using g by (auto simp: find_Some_iff)
        let ?f = "fresh p nic (IP l) stamp"
        from Store_serving[OF s1(3), of p ?f] obtain s2 where
          s2: "Store p ?f s1 = (None, s2)" "stored s2 = (stored s1)(IP ?f \<mapsto> ?f)" "serving s2"
          by blast
        from Store_well_kept[OF s1(2), of p ?f] s2(1) have wk: "well_kept s2" by simp
        from assms(3) L None slot Some s2(1) have rs: "r = Inr (IP l)" "s' = s2"
          by (simp_all add: Assign_def m newLease_fresh)
        from s2(2) s1(1) have "stored s2 = (stored s)(IP l \<mapsto> ?f)"
          by (simp add: fresh_def)
        with rs wk s2(3) l no ns show ?thesis by auto
      next
        case ex: None
        then have ne: "\<not> (\<exists>l \<in> ran (stored s). ExpireTime l < now)"
          using g by (auto simp: find_None_iff)
        from assms(3) L None slot ex have "r = Inl ErrLeasePoolIsFull" "s' = s1"
          by (simp_all add: Assign_def m)
        with s1 no ns ne show ?thesis by auto
      qed
    qed
  qed
qed

theorem Assign_policy_witness:
  "well_kept S1_aa \<and> serving S1_aa \<and>
   Assign S1_pool ''bb:bb'' [] 5 5 S1_aa =
     (Inr 0x0A00000B,
      \<lparr>leases_dir = Some [(0x0A00000A, Json (fresh S1_pool ''aa:aa'' 0x0A00000A 0)),
                          (0x0A00000B, Json (fresh S1_pool ''bb:bb'' 0x0A00000B 5))],
       faults = []\<rparr>) \<and>
   well_kept \<lparr>leases_dir = Some [(0x0A00000A, Json (fresh S1_pool ''aa:aa'' 0x0A00000A 0)),
                                (0x0A00000B, Json (fresh S1_pool ''bb:bb'' 0x0A00000B 5))],
             faults = []\<rparr>"
proof -
  let ?s' = "\<lparr>leases_dir = Some [(0x0A00000A, Json (fresh S1_pool ''aa:aa'' 0x0A00000A 0)),
                                 (0x0A00000B, Json (fresh S1_pool ''bb:bb'' 0x0A00000B 5))],
              faults = []\<rparr>"
  have wk: "well_kept S1_aa"
    by (simp add: well_kept_def S1_aa_def nodes_of_def own_key_def fresh_def)
  have sv: "serving S1_aa" by (simp add: serving_def S1_aa_def)
  have ev: "Assign S1_pool ''bb:bb'' [] 5 5 S1_aa = (Inr 0x0A00000B, ?s')"
    by code_simp
  from Assign_policy[OF wk sv ev] wk sv ev show ?thesis by blast
qed

text \<open>
  C2. On a well kept store that serves its requests, with \<open>L\<close> the lease stored for the
  address \<open>a\<close>: if \<open>L\<close> exists and is the client's own, expired or not, it is renewed (the
  first assignment is kept) and \<open>a\<close> returned; if \<open>L\<close> exists, is another client's and has
  \<open>expire_time > now\<close>, \<open>Request\<close> fails with \<open>ErrRefreshNoMatch\<close>; if \<open>L\<close> exists, is
  another client's and has expired, it fails with \<open>ErrRefreshNoMatch\<close> as well; if there
  is no \<open>L\<close>, it fails with \<open>ErrRefreshNoMatch\<close> when some stored lease of \<open>nic\<close> has
  \<open>expire_time > now\<close>, and otherwise a new lease binds \<open>a\<close> to \<open>nic\<close> and \<open>a\<close> is returned.
\<close>

theorem Request_policy:
  assumes "well_kept s" and "serving s"
    and "Request p nic a stamp now s = (r, s')"
  shows "well_kept s' \<and> serving s' \<and>
    (case stored s a of
       Some L \<Rightarrow>
         if Nic L = nic then
           r = Inr a \<and> stored s' = (stored s)(a \<mapsto> renewed p L stamp)
         else if ExpireTime L > now then
           r = Inl ErrRefreshNoMatch \<and> stored s' = stored s
         else
           r = Inl ErrRefreshNoMatch \<and> stored s' = stored s
     | None \<Rightarrow>
         if \<exists>l \<in> ran (stored s). Nic l = nic \<and> ExpireTime l > now then
           r = Inl ErrRefreshNoMatch \<and> stored s' = stored s
         else
           r = Inr a \<and> stored s' = (stored s)(a \<mapsto> fresh p nic a stamp))"
proof -
  from Leases_well_kept[OF assms(1,2)] obtain m s1 where
    L: "Leases p s = (Inr m, s1)" and d: "distinct (map fst m)" and m: "map_of m = stored s"
    and s1: "stored s1 = stored s" "well_kept s1" "serving s1"
    by blast
  show ?thesis
  proof (cases "stored s a")
    case (Some l)
    have ip: "IP l = a" using stored_own_key[OF assms(1) Some] .
    show ?thesis
    proof (cases "Nic l = nic")
      case True
      from Store_serving[OF s1(3), of p "renewed p l stamp"] obtain s2 where
        s2: "Store p (renewed p l stamp) s1 = (None, s2)"
            "stored s2 = (stored s1)(IP (renewed p l stamp) \<mapsto> renewed p l stamp)" "serving s2"
        by blast
      from Store_well_kept[OF s1(2), of p "renewed p l stamp"] s2(1) have wk: "well_kept s2" by simp
      from assms(3) L Some True s2(1) have rs: "r = Inr (IP l)" "s' = s2"
        using newLease_renewed[of l p stamp] by (simp_all add: Request_def m)
      from s2(2) s1(1) ip have "stored s2 = (stored s)(a \<mapsto> renewed p l stamp)"
        by (simp add: renewed_def)
      with rs wk s2(3) Some True ip show ?thesis by simp
    next
      case False
      from assms(3) L Some False have "r = Inl ErrRefreshNoMatch" "s' = s1"
        by (simp_all add: Request_def m split: if_splits)
      with s1 Some False show ?thesis by simp
    qed
  next
    case None
    have ex: "list_ex (\<lambda>lease. Nic lease = nic \<and> ExpireTime lease > now) (map snd m) \<longleftrightarrow>
          (\<exists>l \<in> ran (stored s). Nic l = nic \<and> ExpireTime l > now)"
      using list_ex_ran[OF d] m by simp
    show ?thesis
    proof (cases "\<exists>l \<in> ran (stored s). Nic l = nic \<and> ExpireTime l > now")
      case True
      from assms(3) L None True ex have "r = Inl ErrRefreshNoMatch" "s' = s1"
        by (simp_all add: Request_def m)
      with s1 None True show ?thesis by simp
    next
      case False
      let ?f = "fresh p nic a stamp"
      from Store_serving[OF s1(3), of p ?f] obtain s2 where
        s2: "Store p ?f s1 = (None, s2)" "stored s2 = (stored s1)(IP ?f \<mapsto> ?f)" "serving s2"
        by blast
      from Store_well_kept[OF s1(2), of p ?f] s2(1) have wk: "well_kept s2" by simp
      from assms(3) L None False ex s2(1) have rs: "r = Inr a" "s' = s2"
        by (simp_all add: Request_def m newLease_fresh)
      from s2(2) s1(1) have "stored s2 = (stored s)(a \<mapsto> ?f)"
        by (simp add: fresh_def)
      with rs wk s2(3) None False show ?thesis by simp
    qed
  qed
qed

theorem Request_policy_witness:
  "well_kept S1_aa \<and> serving S1_aa \<and>
   Request S1_pool ''aa:aa'' 0x0A00000A 60 60 S1_aa =
     (Inr 0x0A00000A,
      \<lparr>leases_dir = Some [(0x0A00000A, Json (renewed S1_pool (fresh S1_pool ''aa:aa'' 0x0A00000A 0) 60))],
       faults = []\<rparr>) \<and>
   well_kept \<lparr>leases_dir = Some [(0x0A00000A, Json (renewed S1_pool (fresh S1_pool ''aa:aa'' 0x0A00000A 0) 60))],
             faults = []\<rparr>"
proof -
  let ?s' = "\<lparr>leases_dir = Some [(0x0A00000A, Json (renewed S1_pool (fresh S1_pool ''aa:aa'' 0x0A00000A 0) 60))],
              faults = []\<rparr>"
  have wk: "well_kept S1_aa"
    by (simp add: well_kept_def S1_aa_def nodes_of_def own_key_def fresh_def)
  have sv: "serving S1_aa" by (simp add: serving_def S1_aa_def)
  have ev: "Request S1_pool ''aa:aa'' 0x0A00000A 60 60 S1_aa = (Inr 0x0A00000A, ?s')"
    by code_simp
  from Request_policy[OF wk sv ev] wk sv ev show ?thesis by blast
qed

text \<open>
  C9. From an empty pool with a positive range, on a store that serves its requests, two
  calls of \<open>Assign\<close> for one hardware identifier one after the other return the same
  address, the start address. After the second call the lease has the first assignment
  of the first call, and the last assignment and the expiry, \<open>stamp + D\<close>, of the second.
\<close>

theorem Assign_twice_sticky:
  assumes "empty_pool s" and "serving s" and "0 < rangeLen p"
    and "Assign p m ks1 stamp1 now1 s = (r1, s1)"
    and "Assign p m ks2 stamp2 now2 s1 = (r2, s2)"
  shows "r1 = Inr (startIP p) \<and> r2 = Inr (startIP p) \<and>
         stored s1 = [startIP p \<mapsto> fresh p m (startIP p) stamp1] \<and>
         stored s2 = [startIP p \<mapsto> fresh p m (startIP p) stamp1
                        \<lparr>LastAssigned := stamp2, ExpireTime := stamp2 + expireDuration p\<rparr>]"
proof -
  let ?S = "startIP p"
  let ?f = "fresh p m ?S stamp1"
  let ?g = "renewed p ?f stamp2"
  from assms(1) have wk: "well_kept s" and e: "stored s = Map.empty"
    by (simp_all add: empty_pool_def well_kept_def stored_def fun_eq_iff)
  \<comment> \<open>the first call: nothing is listed, the first address is free\<close>
  from Leases_well_kept[OF wk assms(2)] obtain l0 t0 where
    L0: "Leases p s = (Inr l0, t0)" "map_of l0 = stored s" "stored t0 = stored s"
        "well_kept t0" "serving t0"
    by blast
  from L0(2) e have l0: "l0 = []" by simp
  from assms(3) have "[0 ..< nat (rangeLen p)] = 0 # [1 ..< nat (rangeLen p)]"
    by (simp add: upt_conv_Cons)
  then have slot: "find (\<lambda>i. map_of l0 (IPAdd ?S i) = None) [0 ..< nat (rangeLen p)] = Some 0"
    by (simp add: l0)
  have a0: "IPAdd ?S 0 = ?S" by (simp add: IPAdd_def)
  from Store_serving[OF L0(5), of p ?f] obtain t1 where
    t1: "Store p ?f t0 = (None, t1)" "stored t1 = (stored t0)(IP ?f \<mapsto> ?f)" "serving t1"
    by blast
  from Store_well_kept[OF L0(4), of p ?f] t1(1) have wk1: "well_kept t1" by simp
  from assms(4) L0(1) slot t1(1) have 1: "r1 = Inr ?S" "s1 = t1"
    by (simp_all add: Assign_def l0 go_range_Nil a0 newLease_fresh)
  from t1(2) L0(3) e have st1: "stored t1 = [?S \<mapsto> ?f]" by (simp add: fresh_def)
  \<comment> \<open>the second call: the only lease listed is the client's own\<close>
  from Leases_well_kept[OF wk1 t1(3)] obtain l1 u0 where
    L1: "Leases p t1 = (Inr l1, u0)" "distinct (map fst l1)" "map_of l1 = stored t1"
        "stored u0 = stored t1" "well_kept u0" "serving u0"
    by blast
  have g: "set (go_range ks2 l1) = {?f}" using set_go_range[OF L1(2), of ks2] L1(3) st1 by simp
  have n: "Nic ?f = m" "IP ?f = ?S" by (simp_all add: fresh_def)
  have "find (\<lambda>lease. Nic lease = m) (go_range ks2 l1) \<noteq> None"
    using g n by (simp add: find_None_iff)
  then obtain l where l: "find (\<lambda>lease. Nic lease = m) (go_range ks2 l1) = Some l" by auto
  then have "l \<in> set (go_range ks2 l1)" by (auto simp: find_Some_iff)
  with g have lf: "l = ?f" by simp
  from Store_serving[OF L1(6), of p ?g] obtain u1 where
    u1: "Store p ?g u0 = (None, u1)" "stored u1 = (stored u0)(IP ?g \<mapsto> ?g)"
    by blast
  from assms(5) 1(2) L1(1) l lf u1(1) n have 2: "r2 = Inr ?S" "s2 = u1"
    using newLease_renewed[of ?f p stamp2] by (simp_all add: Assign_def)
  from u1(2) L1(4) st1 n have st2: "stored u1 = [?S \<mapsto> ?g]" by (simp add: renewed_def)
  have "?g = ?f\<lparr>LastAssigned := stamp2, ExpireTime := stamp2 + expireDuration p\<rparr>"
    by (simp add: renewed_def fresh_def)
  with 1 2 st1 st2 show ?thesis by simp
qed

theorem Assign_twice_sticky_witness:
  "empty_pool S1_start \<and> serving S1_start \<and> 0 < rangeLen S1_pool \<and>
   Assign S1_pool ''aa:aa'' [] 0 0 S1_start = (Inr 0x0A00000A, S1_aa) \<and>
   Assign S1_pool ''aa:aa'' [] 60 60 S1_aa =
     (Inr 0x0A00000A,
      \<lparr>leases_dir = Some [(0x0A00000A, Json (renewed S1_pool (fresh S1_pool ''aa:aa'' 0x0A00000A 0) 60))],
       faults = []\<rparr>) \<and>
   stored \<lparr>leases_dir = Some [(0x0A00000A, Json (renewed S1_pool (fresh S1_pool ''aa:aa'' 0x0A00000A 0) 60))],
           faults = []\<rparr> =
     [startIP S1_pool \<mapsto> fresh S1_pool ''aa:aa'' (startIP S1_pool) 0
        \<lparr>LastAssigned := 60, ExpireTime := 60 + expireDuration S1_pool\<rparr>]"
proof -
  let ?s2 = "\<lparr>leases_dir = Some [(0x0A00000A, Json (renewed S1_pool (fresh S1_pool ''aa:aa'' 0x0A00000A 0) 60))],
              faults = []\<rparr>"
  have e: "empty_pool S1_start" by (simp add: empty_pool_def nodes_of_def S1_start_def)
  have sv: "serving S1_start" by (simp add: serving_def S1_start_def)
  have r: "0 < rangeLen S1_pool" by (simp add: S1_pool_def)
  have 1: "Assign S1_pool ''aa:aa'' [] 0 0 S1_start = (Inr 0x0A00000A, S1_aa)" by code_simp
  have 2: "Assign S1_pool ''aa:aa'' [] 60 60 S1_aa = (Inr 0x0A00000A, ?s2)" by code_simp
  from Assign_twice_sticky[OF e sv r 1 2] e sv r 1 2 show ?thesis by blast
qed

subsection \<open>Failures of the store\<close>

text \<open>
  C4. A failed write is reported by one of the five calls of \<open>Store\<close> only. The store
  holds the lease of \<open>aa:aa\<close>, serves the listing and then fails the write. \<open>Assign("aa:aa")\<close> (first loop) and \<open>Request("aa:aa", 10.0.0.10)\<close>
  return the address with no error although the renewal was not written, and so do
  \<open>Request("cc:cc", 10.0.0.12)\<close> for a new binding and, with a range of one address,
  \<open>Assign("bb:bb")\<close> after the lease has expired (third loop). Only the second loop of
  \<open>Assign\<close> reports the failure: \<open>Assign("bb:bb")\<close> returns the error of the store.
\<close>

theorem Store_failure_dropped:
  "Assign S1_pool ''aa:aa'' [] 60 60 (S1_aa\<lparr>faults := [False, True]\<rparr>) = (Inr 0x0A00000A, S1_aa) \<and>
   Request S1_pool ''aa:aa'' 0x0A00000A 60 60 (S1_aa\<lparr>faults := [False, True]\<rparr>) = (Inr 0x0A00000A, S1_aa) \<and>
   Request S1_pool ''cc:cc'' 0x0A00000C 60 60 (S1_aa\<lparr>faults := [False, True]\<rparr>) = (Inr 0x0A00000C, S1_aa) \<and>
   Assign (S1_pool\<lparr>rangeLen := 1\<rparr>) ''bb:bb'' [] 7200 7200 (S1_aa\<lparr>faults := [False, True]\<rparr>) =
     (Inr 0x0A00000A, S1_aa) \<and>
   Assign S1_pool ''bb:bb'' [] 60 60 (S1_aa\<lparr>faults := [False, True]\<rparr>) = (Inl (Etcd Unavailable), S1_aa)"
  by code_simp

subsection \<open>The invariant of the pool\<close>

lemma tidy_later: "tidy t s \<Longrightarrow> t \<le> t' \<Longrightarrow> tidy t' s"
  unfolding tidy_def by (meson order_trans)

lemma single_later: "single t s \<Longrightarrow> t \<le> t' \<Longrightarrow> single t' s"
  unfolding single_def live_def by (meson le_less_trans)

lemma tidy_same:
  "tidy t s \<Longrightarrow> stored s' = stored s \<Longrightarrow> well_kept s' \<Longrightarrow> tidy t s'"
  by (simp add: tidy_def)

lemma single_same:
  "single t s \<Longrightarrow> stored s' = stored s \<Longrightarrow> single t s'"
  by (simp add: single_def)

lemma tidy_update:
  assumes k: "tidy t s" and st: "stored s' = (stored s)(IP x \<mapsto> x)" and wk: "well_kept s'"
    and v: "valid_lease x" "LastAssigned x \<le> t"
  shows "tidy t s'"
  unfolding tidy_def
proof (intro conjI allI impI)
  show "well_kept s'" by (rule wk)
next
  fix k l assume "stored s' k = Some l"
  with st k v show "valid_lease l" by (auto simp: tidy_def split: if_splits)
next
  fix k l assume "stored s' k = Some l"
  with st k v show "LastAssigned l \<le> t" by (auto simp: tidy_def split: if_splits)
qed

lemma single_update:
  assumes k: "single t s" and st: "stored s' = (stored s)(IP x \<mapsto> x)"
    and u: "\<And>k l. k \<noteq> IP x \<Longrightarrow> stored s k = Some l \<Longrightarrow> Nic l = Nic x \<Longrightarrow> \<not> live t l"
  shows "single t s'"
  unfolding single_def
proof (intro conjI allI impI)
  fix k1 k2 l1 l2
  assume a: "k1 \<noteq> k2 \<and> stored s' k1 = Some l1 \<and> stored s' k2 = Some l2 \<and> Nic l1 = Nic l2"
  show "\<not> (live t l1 \<and> live t l2)"
  proof (cases "k1 = IP x")
    case True
    with a st have "l1 = x" "k2 \<noteq> IP x" "stored s k2 = Some l2" by auto
    with u[of k2 l2] a show ?thesis by simp
  next
    case False
    show ?thesis
    proof (cases "k2 = IP x")
      case True
      with a st False have "l2 = x" "stored s k1 = Some l1" by auto
      with u[of k1 l1] a False show ?thesis by simp
    next
      case k2: False
      with a st False have "stored s k1 = Some l1" "stored s k2 = Some l2" by auto
      with k a show ?thesis unfolding single_def by blast
    qed
  qed
qed

lemma stored_node:
  assumes "well_kept s" "(k, v) \<in> set (nodes_of s)"
  shows "\<exists>l. json_Unmarshal v = Some l \<and> stored s k = Some l"
proof -
  from assms have "own_key (k, v)" by (auto simp: well_kept_def list_all_iff)
  then obtain l where l: "json_Unmarshal v = Some l" by (auto simp: own_key_def split: option.splits)
  from assms have "map_of (nodes_of s) k = Some v" by (simp add: well_kept_def)
  with l show ?thesis by (simp add: stored_def)
qed

lemma tidy_valid_records:
  assumes "tidy t s"
  shows "valid_records s"
proof -
  from assms have wk: "well_kept s" by (simp add: tidy_def)
  have "valid_node n" if "n \<in> set (nodes_of s)" for n
  proof -
    obtain k v where n: "n = (k, v)" by (cases n)
    from stored_node[OF wk, of k v] that n obtain l where
      "json_Unmarshal v = Some l" "stored s k = Some l" by auto
    with assms n show ?thesis by (auto simp: tidy_def valid_node_def)
  qed
  then show ?thesis by (simp add: valid_records_def list_all_iff)
qed

lemma single_no_clash:
  assumes "well_kept s" "single t s"
  shows "no_clash t s"
proof -
  have "\<not> clash t n1 n2" if "n1 \<in> set (nodes_of s)" "n2 \<in> set (nodes_of s)" for n1 n2
  proof
    assume c: "clash t n1 n2"
    obtain k1 v1 k2 v2 where n: "n1 = (k1, v1)" "n2 = (k2, v2)" by (cases n1, cases n2)
    from c n obtain l1 l2 where l: "k1 \<noteq> k2" "json_Unmarshal v1 = Some l1" "json_Unmarshal v2 = Some l2"
      "Nic l1 = Nic l2" "live t l1" "live t l2"
      by (auto simp: clash_def split: option.splits)
    with stored_node[OF assms(1), of k1 v1] stored_node[OF assms(1), of k2 v2] that n
    have "stored s k1 = Some l1" "stored s k2 = Some l2" by simp_all
    with assms(2) l show False unfolding single_def by blast
  qed
  then show ?thesis by (simp add: no_clash_def list_all_iff)
qed

lemma empty_pool_tidy: "empty_pool s \<Longrightarrow> tidy t s \<and> single t s"
  by (simp add: empty_pool_def tidy_def single_def well_kept_def stored_def)

lemma node_stored:
  assumes "well_kept s" "stored s k = Some l"
  shows "\<exists>v. (k, v) \<in> set (nodes_of s) \<and> json_Unmarshal v = Some l"
  using assms(2) by (auto simp: stored_def split: option.splits dest: map_of_SomeD)

lemma other_live_stored:
  assumes "well_kept s"
  shows "other_live t s L \<longleftrightarrow>
         (\<exists>k l. k \<noteq> IP L \<and> stored s k = Some l \<and> Nic l = Nic L \<and> live t l)"
proof
  assume "other_live t s L"
  then obtain n where n: "n \<in> set (nodes_of s)" "fst n \<noteq> IP L"
      "case json_Unmarshal (snd n) of None \<Rightarrow> False | Some l \<Rightarrow> Nic l = Nic L \<and> live t l"
    unfolding other_live_def list_ex_iff by blast
  from n(3) obtain l where l: "json_Unmarshal (snd n) = Some l" "Nic l = Nic L" "live t l"
    by (cases "json_Unmarshal (snd n)") simp_all
  from n(1) have "(fst n, snd n) \<in> set (nodes_of s)" by simp
  from stored_node[OF assms this] l(1) have "stored s (fst n) = Some l" by simp
  with n(2) l show "\<exists>k l. k \<noteq> IP L \<and> stored s k = Some l \<and> Nic l = Nic L \<and> live t l" by blast
next
  assume "\<exists>k l. k \<noteq> IP L \<and> stored s k = Some l \<and> Nic l = Nic L \<and> live t l"
  then obtain k l where kl: "k \<noteq> IP L" "stored s k = Some l" "Nic l = Nic L" "live t l" by blast
  from node_stored[OF assms kl(2)] obtain v where
    v: "(k, v) \<in> set (nodes_of s)" "json_Unmarshal v = Some l" by blast
  have "fst (k, v) \<noteq> IP L \<and>
        (case json_Unmarshal (snd (k, v)) of None \<Rightarrow> False | Some l \<Rightarrow> Nic l = Nic L \<and> live t l)"
    using kl v(2) by simp
  with v(1) show "other_live t s L"
    unfolding other_live_def list_ex_iff by blast
qed

lemma no_clash_single:
  assumes "well_kept s" "no_clash t s"
  shows "single t s"
  unfolding single_def
proof (intro allI impI)
  fix k1 k2 l1 l2
  assume a: "k1 \<noteq> k2 \<and> stored s k1 = Some l1 \<and> stored s k2 = Some l2 \<and> Nic l1 = Nic l2"
  from a node_stored[OF assms(1), of k1 l1] node_stored[OF assms(1), of k2 l2]
  obtain v1 v2 where v: "(k1, v1) \<in> set (nodes_of s)" "json_Unmarshal v1 = Some l1"
      "(k2, v2) \<in> set (nodes_of s)" "json_Unmarshal v2 = Some l2" by blast
  from assms(2) v(1,3) have "\<not> clash t (k1, v1) (k2, v2)"
    by (auto simp: no_clash_def list_all_iff)
  with a v show "\<not> (live t l1 \<and> live t l2)" by (simp add: clash_def)
qed

lemma Store_served:
  "stored (snd (Store p l s)) =
     (if fst (Store p l s) = None then (stored s)(IP l \<mapsto> l) else stored s)"
  by (cases "faults s"; cases "leases_dir s")
     (auto simp: Store_def etcd_Set_def next_request_def nodes_of_def stored_def
        json_Marshal_def update_conv' fun_eq_iff split: bool.splits)


lemma ran_stored_nodes:
  assumes "well_kept s"
  shows "l \<in> ran (stored s) \<longleftrightarrow> (\<exists>n \<in> set (nodes_of s). json_Unmarshal (snd n) = Some l)"
proof
  assume "l \<in> ran (stored s)"
  then obtain k where "stored s k = Some l" by (auto simp: ran_def)
  from node_stored[OF assms this] show "\<exists>n \<in> set (nodes_of s). json_Unmarshal (snd n) = Some l"
    by force
next
  assume "\<exists>n \<in> set (nodes_of s). json_Unmarshal (snd n) = Some l"
  then obtain n where n: "n \<in> set (nodes_of s)" "json_Unmarshal (snd n) = Some l" by blast
  from n(1) have "(fst n, snd n) \<in> set (nodes_of s)" by simp
  from stored_node[OF assms this] n(2) have "stored s (fst n) = Some l" by simp
  then show "l \<in> ran (stored s)" by (auto simp: ran_def)
qed

lemma second_binding_Request:
  assumes "well_kept s"
  shows "second_binding (RequestOp nic a stamp now) s \<longleftrightarrow>
         stored s a = None \<and> (\<exists>l \<in> ran (stored s). Nic l = nic) \<and>
         (\<forall>l \<in> ran (stored s). Nic l = nic \<longrightarrow> \<not> live now l)"
proof -
  have 1: "list_ex (\<lambda>node. case json_Unmarshal (snd node) of None \<Rightarrow> False | Some l \<Rightarrow> Nic l = nic)
             (nodes_of s) \<longleftrightarrow> (\<exists>l \<in> ran (stored s). Nic l = nic)"
  proof
    assume "list_ex (\<lambda>node. case json_Unmarshal (snd node) of None \<Rightarrow> False | Some l \<Rightarrow> Nic l = nic)
             (nodes_of s)"
    then obtain n where n: "n \<in> set (nodes_of s)"
        "case json_Unmarshal (snd n) of None \<Rightarrow> False | Some l \<Rightarrow> Nic l = nic"
      unfolding list_ex_iff by blast
    from n(2) obtain l where l: "json_Unmarshal (snd n) = Some l" "Nic l = nic"
      by (cases "json_Unmarshal (snd n)") simp_all
    with n(1) have "l \<in> ran (stored s)" unfolding ran_stored_nodes[OF assms] by blast
    with l(2) show "\<exists>l \<in> ran (stored s). Nic l = nic" by blast
  next
    assume "\<exists>l \<in> ran (stored s). Nic l = nic"
    then obtain l where l: "l \<in> ran (stored s)" "Nic l = nic" by blast
    from l(1) obtain n where n: "n \<in> set (nodes_of s)" "json_Unmarshal (snd n) = Some l"
      unfolding ran_stored_nodes[OF assms] by blast
    from n(2) l(2) have "case json_Unmarshal (snd n) of None \<Rightarrow> False | Some l \<Rightarrow> Nic l = nic"
      by simp
    with n(1) show "list_ex (\<lambda>node. case json_Unmarshal (snd node) of None \<Rightarrow> False | Some l \<Rightarrow> Nic l = nic)
             (nodes_of s)"
      unfolding list_ex_iff by blast
  qed
  have 2: "list_all (\<lambda>node. case json_Unmarshal (snd node) of
                  None \<Rightarrow> True | Some l \<Rightarrow> Nic l = nic \<longrightarrow> \<not> live now l) (nodes_of s) \<longleftrightarrow>
           (\<forall>l \<in> ran (stored s). Nic l = nic \<longrightarrow> \<not> live now l)"
  proof
    assume a: "list_all (\<lambda>node. case json_Unmarshal (snd node) of
                  None \<Rightarrow> True | Some l \<Rightarrow> Nic l = nic \<longrightarrow> \<not> live now l) (nodes_of s)"
    show "\<forall>l \<in> ran (stored s). Nic l = nic \<longrightarrow> \<not> live now l"
    proof (intro ballI impI)
      fix l assume l: "l \<in> ran (stored s)" "Nic l = nic"
      from l(1) obtain n where n: "n \<in> set (nodes_of s)" "json_Unmarshal (snd n) = Some l"
        unfolding ran_stored_nodes[OF assms] by blast
      from a n(1) have "case json_Unmarshal (snd n) of
                  None \<Rightarrow> True | Some l \<Rightarrow> Nic l = nic \<longrightarrow> \<not> live now l"
        unfolding list_all_iff by blast
      with n(2) l(2) show "\<not> live now l" by simp
    qed
  next
    assume a: "\<forall>l \<in> ran (stored s). Nic l = nic \<longrightarrow> \<not> live now l"
    have "case json_Unmarshal (snd n) of
                  None \<Rightarrow> True | Some l \<Rightarrow> Nic l = nic \<longrightarrow> \<not> live now l"
      if "n \<in> set (nodes_of s)" for n
    proof (cases "json_Unmarshal (snd n)")
      case None
      then show ?thesis by simp
    next
      case (Some l)
      with that have "l \<in> ran (stored s)" unfolding ran_stored_nodes[OF assms] by blast
      with a Some show ?thesis by simp
    qed
    then show "list_all (\<lambda>node. case json_Unmarshal (snd node) of
                  None \<Rightarrow> True | Some l \<Rightarrow> Nic l = nic \<longrightarrow> \<not> live now l) (nodes_of s)"
      unfolding list_all_iff by blast
  qed
  show ?thesis unfolding second_binding.simps 1 2 ..
qed

text \<open>What one operation does to the table.\<close>

lemma perform_effect:
  assumes wk: "well_kept s"
  shows "well_kept (perform p op s) \<and>
     (renews p op s = None \<and> stored (perform p op s) = stored s \<or>
      (\<exists>L. renews p op s = Some L \<and> stored s (IP L) = Some L \<and> Nic L = op_nic op \<and>
           stored (perform p op s) = (stored s)(IP L \<mapsto> renewed p L (op_stamp op))) \<or>
      (\<exists>a. renews p op s = None \<and>
           (\<forall>l \<in> ran (stored s). Nic l = op_nic op \<longrightarrow> ExpireTime l \<le> op_now op) \<and>
           (second_binding op s \<or> (\<forall>l \<in> ran (stored s). Nic l \<noteq> op_nic op)) \<and>
           stored (perform p op s) = (stored s)(a \<mapsto> fresh p (op_nic op) a (op_stamp op))))"
proof -
  obtain r s1 where L: "Leases p s = (r, s1)" by (cases "Leases p s")
  from Leases_any[OF wk L] have s1: "well_kept s1" "stored s1 = stored s"
    and rm: "\<And>m. r = Inr m \<Longrightarrow> distinct (map fst m) \<and> map_of m = stored s"
    by simp_all
  have swk: "\<And>x. well_kept (snd (Store p x s1))" using Store_well_kept[OF s1(1)] .
  have store: "\<And>x. stored (snd (Store p x s1)) =
      (if fst (Store p x s1) = None then (stored s)(IP x \<mapsto> x) else stored s)"
    using Store_served[of p _ s1] s1(2) by simp
  have renew: ?thesis
    if p: "perform p op s = snd (Store p (renewed p l (op_stamp op)) s1)"
      and rn: "renews p op s = (if fst (Store p (renewed p l (op_stamp op)) s1) = None then Some l else None)"
      and l: "stored s (IP l) = Some l" "Nic l = op_nic op" for l
  proof (cases "fst (Store p (renewed p l (op_stamp op)) s1) = None")
    case True
    have ipr: "IP (renewed p l (op_stamp op)) = IP l" by (simp add: renewed_def)
    from True store[of "renewed p l (op_stamp op)"] p ipr
    have "stored (perform p op s) = (stored s)(IP l \<mapsto> renewed p l (op_stamp op))" by simp
    moreover from rn True have "renews p op s = Some l" by simp
    moreover from p swk have "well_kept (perform p op s)" by simp
    ultimately show ?thesis using l by blast
  next
    case False
    with store[of "renewed p l (op_stamp op)"] p
    have "stored (perform p op s) = stored s" by simp
    moreover from rn False have "renews p op s = None" by simp
    moreover from p swk have "well_kept (perform p op s)" by simp
    ultimately show ?thesis by blast
  qed
  have new: ?thesis
    if p: "perform p op s = snd (Store p (fresh p (op_nic op) a (op_stamp op)) s1)"
      and rn: "renews p op s = None"
      and e: "\<forall>l \<in> ran (stored s). Nic l = op_nic op \<longrightarrow> ExpireTime l \<le> op_now op"
      and sb: "second_binding op s \<or> (\<forall>l \<in> ran (stored s). Nic l \<noteq> op_nic op)" for a
  proof (cases "fst (Store p (fresh p (op_nic op) a (op_stamp op)) s1) = None")
    case True
    have ipf: "IP (fresh p (op_nic op) a (op_stamp op)) = a" by (simp add: fresh_def)
    from True store[of "fresh p (op_nic op) a (op_stamp op)"] p ipf
    have "stored (perform p op s) = (stored s)(a \<mapsto> fresh p (op_nic op) a (op_stamp op))" by simp
    moreover from p swk have "well_kept (perform p op s)" by simp
    ultimately show ?thesis using rn e sb by blast
  next
    case False
    with store[of "fresh p (op_nic op) a (op_stamp op)"] p
    have "stored (perform p op s) = stored s" by simp
    moreover from p swk have "well_kept (perform p op s)" by simp
    ultimately show ?thesis using rn by blast
  qed
  have same: ?thesis if "perform p op s = s1" "renews p op s = None"
    using that s1 by simp
  show ?thesis
  proof (cases r)
    case (Inl err)
    with L have "perform p op s = s1" "renews p op s = None"
      by (cases op; simp add: Assign_def Request_def)+
    then show ?thesis by (rule same)
  next
    case (Inr m)
    from rm[OF Inr] have d: "distinct (map fst m)" and ms: "map_of m = stored s" by simp_all
    show ?thesis
    proof (cases op)
      case (AssignOp nic ks stamp now)
      have g: "set (go_range ks m) = ran (stored s)" using set_go_range[OF d] ms by simp
      show ?thesis
      proof (cases "find (\<lambda>lease. Nic lease = nic) (go_range ks m)")
        case (Some l)
        then have l: "l \<in> ran (stored s)" "Nic l = nic" using g by (auto simp: find_Some_iff)
        from l(1) obtain k where "stored s k = Some l" by (auto simp: ran_def)
        with stored_own_key[OF wk this] have sl: "stored s (IP l) = Some l" by simp
        have p: "perform p op s = snd (Store p (renewed p l (op_stamp op)) s1)"
          using AssignOp L Inr Some l(2) newLease_renewed[of l p stamp] by (simp add: Assign_def)
        have rn: "renews p op s =
            (if fst (Store p (renewed p l (op_stamp op)) s1) = None then Some l else None)"
          using AssignOp L Inr Some by simp
        from renew[OF p rn sl] l(2) AssignOp show ?thesis by simp
      next
        case None
        then have no: "\<forall>l \<in> ran (stored s). Nic l \<noteq> nic" using g by (auto simp: find_None_iff)
        have rn: "renews p op s = None" using AssignOp L Inr None by simp
        have "\<exists>a. perform p op s = s1 \<or> perform p op s = snd (Store p (fresh p nic a stamp) s1)"
        proof (cases "find (\<lambda>i. map_of m (IPAdd (startIP p) i) = None) [0 ..< nat (rangeLen p)]")
          case (Some i)
          with AssignOp L Inr None
          have "perform p op s = snd (Store p (fresh p nic (IPAdd (startIP p) i) stamp) s1)"
            by (simp add: Assign_def newLease_fresh split: option.splits prod.splits)
          then show ?thesis by blast
        next
          case slot: None
          show ?thesis
          proof (cases "find (\<lambda>lease. ExpireTime lease < now) (go_range ks m)")
            case (Some l)
            with AssignOp L Inr None slot
            have "perform p op s = snd (Store p (fresh p nic (IP l) stamp) s1)"
              by (simp add: Assign_def newLease_fresh)
            then show ?thesis by blast
          next
            case ex: None
            with AssignOp L Inr None slot have "perform p op s = s1" by (simp add: Assign_def)
            then show ?thesis by blast
          qed
        qed
        then obtain a where
          a: "perform p op s = s1 \<or> perform p op s = snd (Store p (fresh p nic a stamp) s1)" by blast
        from a show ?thesis
        proof
          assume "perform p op s = s1"
          from same[OF this rn] show ?thesis .
        next
          assume "perform p op s = snd (Store p (fresh p nic a stamp) s1)"
          with no rn AssignOp show ?thesis by (intro new[of a]) simp_all
        qed
      qed
    next
      case (RequestOp nic a stamp now)
      show ?thesis
      proof (cases "stored s a")
        case (Some l)
        from stored_own_key[OF wk Some] have ip: "IP l = a" .
        show ?thesis
        proof (cases "Nic l = nic")
          case True
          have p: "perform p op s = snd (Store p (renewed p l (op_stamp op)) s1)"
            using RequestOp L Inr Some True newLease_renewed[of l p stamp] by (simp add: Request_def ms)
          have rn: "renews p op s =
              (if fst (Store p (renewed p l (op_stamp op)) s1) = None then Some l else None)"
            using RequestOp L Inr Some True by (simp add: ms)
          from Some ip have sl: "stored s (IP l) = Some l" by simp
          from renew[OF p rn sl] True RequestOp show ?thesis by simp
        next
          case False
          with RequestOp L Inr Some have "perform p op s = s1" "renews p op s = None"
            by (simp_all add: Request_def ms)
          then show ?thesis by (rule same)
        qed
      next
        case None
        have rn: "renews p op s = None" using RequestOp L Inr None by (simp add: ms)
        have ex: "list_ex (\<lambda>lease. Nic lease = nic \<and> ExpireTime lease > now) (map snd m) \<longleftrightarrow>
          (\<exists>l \<in> ran (stored s). Nic l = nic \<and> ExpireTime l > now)"
          using list_ex_ran[OF d] ms by simp
        show ?thesis
        proof (cases "\<exists>l \<in> ran (stored s). Nic l = nic \<and> ExpireTime l > now")
          case True
          with RequestOp L Inr None ex have "perform p op s = s1" by (simp add: Request_def ms)
          from same[OF this rn] show ?thesis .
        next
          case False
          with RequestOp L Inr None ex have p: "perform p op s = snd (Store p (fresh p nic a stamp) s1)"
            by (simp add: Request_def ms newLease_fresh)
          from False have e: "\<forall>l \<in> ran (stored s). Nic l = nic \<longrightarrow> ExpireTime l \<le> now" by auto
          then have nl: "\<forall>l \<in> ran (stored s). Nic l = nic \<longrightarrow> \<not> live now l"
            by (simp add: live_def not_less)
          have sb: "second_binding op s \<or> (\<forall>l \<in> ran (stored s). Nic l \<noteq> nic)"
            unfolding RequestOp second_binding_Request[OF wk] using None nl by blast
          from p rn e sb RequestOp show ?thesis by (intro new[of a]) simp_all
        qed
      qed
    qed
  qed
qed


lemma perform_tidy:
  assumes k: "tidy t s" and d: "0 < expireDuration p" and n: "op_nic op \<noteq> []"
    and c: "t \<le> op_stamp op"
  shows "tidy (op_stamp op) (perform p op s)"
proof -
  from k have wk: "well_kept s" by (simp add: tidy_def)
  note k' = tidy_later[OF k c]
  from perform_effect[OF wk, of p op] have wk': "well_kept (perform p op s)" by simp
  from perform_effect[OF wk, of p op] consider
      (same) "stored (perform p op s) = stored s"
    | (renew) L where "stored s (IP L) = Some L"
        "stored (perform p op s) = (stored s)(IP L \<mapsto> renewed p L (op_stamp op))"
    | (new) a where
        "stored (perform p op s) = (stored s)(a \<mapsto> fresh p (op_nic op) a (op_stamp op))"
    by blast
  then show ?thesis
  proof cases
    case same
    from tidy_same[OF k' same wk'] show ?thesis .
  next
    case renew
    let ?x = "renewed p L (op_stamp op)"
    from k renew(1) have vL: "valid_lease L" "LastAssigned L \<le> t" by (auto simp: tidy_def)
    have st: "stored (perform p op s) = (stored s)(IP ?x \<mapsto> ?x)"
      using renew(2) by (simp add: renewed_def)
    have v: "valid_lease ?x" using vL d c by (simp add: valid_lease_def renewed_def)
    have la: "LastAssigned ?x \<le> op_stamp op" by (simp add: renewed_def)
    from tidy_update[OF k' st wk' v la] show ?thesis .
  next
    case new
    let ?x = "fresh p (op_nic op) a (op_stamp op)"
    have st: "stored (perform p op s) = (stored s)(IP ?x \<mapsto> ?x)"
      using new by (simp add: fresh_def)
    have v: "valid_lease ?x" using d n by (simp add: valid_lease_def fresh_def)
    have la: "LastAssigned ?x \<le> op_stamp op" by (simp add: fresh_def)
    from tidy_update[OF k' st wk' v la] show ?thesis .
  qed
qed

lemma perform_single:
  assumes wk: "well_kept s" and k: "single t s"
    and c: "t \<le> op_now op" "op_now op \<le> op_stamp op"
    and r: "case renews p op s of None \<Rightarrow> True | Some lease \<Rightarrow> \<not> other_live (op_stamp op) s lease"
  shows "single (op_stamp op) (perform p op s)"
proof -
  from c have ts: "t \<le> op_stamp op" by simp
  note k' = single_later[OF k ts]
  from perform_effect[OF wk, of p op] consider
      (same) "stored (perform p op s) = stored s"
    | (renew) L where "renews p op s = Some L"
        "stored (perform p op s) = (stored s)(IP L \<mapsto> renewed p L (op_stamp op))"
    | (new) a where "\<forall>l \<in> ran (stored s). Nic l = op_nic op \<longrightarrow> ExpireTime l \<le> op_now op"
        "stored (perform p op s) = (stored s)(a \<mapsto> fresh p (op_nic op) a (op_stamp op))"
    by blast
  then show ?thesis
  proof cases
    case same
    from single_same[OF k' same] show ?thesis .
  next
    case renew
    let ?x = "renewed p L (op_stamp op)"
    from r renew(1) have no: "\<not> other_live (op_stamp op) s L" by simp
    have st: "stored (perform p op s) = (stored s)(IP ?x \<mapsto> ?x)"
      using renew(2) by (simp add: renewed_def)
    have u: "\<not> live (op_stamp op) l" if "k \<noteq> IP ?x" "stored s k = Some l" "Nic l = Nic ?x" for k l
    proof
      assume "live (op_stamp op) l"
      with that have "k \<noteq> IP L \<and> stored s k = Some l \<and> Nic l = Nic L \<and> live (op_stamp op) l"
        by (simp add: renewed_def)
      then have "other_live (op_stamp op) s L" unfolding other_live_stored[OF wk] by blast
      with no show False by simp
    qed
    from single_update[OF k' st u] show ?thesis .
  next
    case new
    let ?x = "fresh p (op_nic op) a (op_stamp op)"
    have st: "stored (perform p op s) = (stored s)(IP ?x \<mapsto> ?x)"
      using new(2) by (simp add: fresh_def)
    have u: "\<not> live (op_stamp op) l" if "k \<noteq> IP ?x" "stored s k = Some l" "Nic l = Nic ?x" for k l
    proof -
      from that(2) have "l \<in> ran (stored s)" by (auto simp: ran_def)
      with new(1) that(3) have "ExpireTime l \<le> op_now op" by (simp add: fresh_def)
      with c(2) show ?thesis by (simp add: live_def)
    qed
    from single_update[OF k' st u] show ?thesis .
  qed
qed

lemma perform_clash:
  assumes wk: "well_kept s" and d: "0 < expireDuration p"
    and rn: "renews p op s = Some L" and o: "other_live (op_stamp op) s L"
  shows "\<not> no_clash (op_stamp op) (perform p op s)"
proof
  assume nc: "no_clash (op_stamp op) (perform p op s)"
  let ?x = "renewed p L (op_stamp op)"
  from perform_effect[OF wk, of p op] rn
  have wk': "well_kept (perform p op s)"
    and st: "stored (perform p op s) = (stored s)(IP L \<mapsto> ?x)" by auto
  from o obtain k l where kl: "k \<noteq> IP L" "stored s k = Some l" "Nic l = Nic L"
      "live (op_stamp op) l"
    unfolding other_live_stored[OF wk] by blast
  from st kl have 1: "stored (perform p op s) k = Some l" by simp
  from st have 2: "stored (perform p op s) (IP L) = Some ?x" by simp
  have 3: "Nic l = Nic ?x" using kl(3) by (simp add: renewed_def)
  have 4: "live (op_stamp op) ?x" using d by (simp add: live_def renewed_def)
  from no_clash_single[OF wk' nc] kl(1) 1 2 3
  have "\<not> (live (op_stamp op) l \<and> live (op_stamp op) ?x)"
    unfolding single_def by blast
  with kl(4) 4 show False by simp
qed

lemma perform_one_key:
  assumes wk: "well_kept s" and k: "one_key s" and n: "\<not> second_binding op s"
  shows "one_key (perform p op s)"
proof -
  from perform_effect[OF wk, of p op] n consider
      (same) "stored (perform p op s) = stored s"
    | (renew) L where "stored s (IP L) = Some L"
        "stored (perform p op s) = (stored s)(IP L \<mapsto> renewed p L (op_stamp op))"
    | (new) a where "\<forall>l \<in> ran (stored s). Nic l \<noteq> op_nic op"
        "stored (perform p op s) = (stored s)(a \<mapsto> fresh p (op_nic op) a (op_stamp op))"
    by blast
  then show ?thesis
  proof cases
    case same
    with k show ?thesis by (simp add: one_key_def)
  next
    case renew
    let ?x = "renewed p L (op_stamp op)"
    have nx: "Nic ?x = Nic L" by (simp add: renewed_def)
    show ?thesis
      unfolding one_key_def
    proof (intro allI impI)
      fix k1 k2 l1 l2
      assume a: "stored (perform p op s) k1 = Some l1 \<and> stored (perform p op s) k2 = Some l2 \<and>
                 Nic l1 = Nic l2"
      have e: "\<exists>l. stored s k = Some l \<and> Nic l = Nic l'" if "stored (perform p op s) k = Some l'" for k l'
        using that renew nx by (cases "k = IP L") auto
      from a e[of k1 l1] e[of k2 l2] obtain m1 m2 where
        "stored s k1 = Some m1" "stored s k2 = Some m2" "Nic m1 = Nic m2" by auto
      with k show "k1 = k2" unfolding one_key_def by blast
    qed
  next
    case new
    let ?x = "fresh p (op_nic op) a (op_stamp op)"
    have nx: "Nic ?x = op_nic op" by (simp add: fresh_def)
    show ?thesis
      unfolding one_key_def
    proof (intro allI impI)
      fix k1 k2 l1 l2
      assume a: "stored (perform p op s) k1 = Some l1 \<and> stored (perform p op s) k2 = Some l2 \<and>
                 Nic l1 = Nic l2"
      have e: "k = a \<and> Nic l' = op_nic op \<or> stored s k = Some l' \<and> Nic l' \<noteq> op_nic op"
        if "stored (perform p op s) k = Some l'" for k l'
      proof (cases "k = a")
        case True
        with that new(2) nx show ?thesis by auto
      next
        case False
        with that new(2) have s: "stored s k = Some l'" by simp
        then have "l' \<in> ran (stored s)" by (auto simp: ran_def)
        with new(1) s show ?thesis by simp
      qed
      from a e[of k1 l1] e[of k2 l2] consider "k1 = a \<and> k2 = a"
        | "stored s k1 = Some l1 \<and> stored s k2 = Some l2" by auto
      then show "k1 = k2"
      proof cases
        case 1
        then show ?thesis by simp
      next
        case 2
        with a k show ?thesis unfolding one_key_def by blast
      qed
    qed
  qed
qed

lemma one_key_safe:
  assumes wk: "well_kept s" and k: "one_key s" and rn: "renews p op s = Some L"
  shows "\<not> other_live t s L"
proof
  assume "other_live t s L"
  then obtain k' l where kl: "k' \<noteq> IP L" "stored s k' = Some l" "Nic l = Nic L"
    unfolding other_live_stored[OF wk] by blast
  from perform_effect[OF wk, of p op] rn have "stored s (IP L) = Some L" by auto
  with k kl show False unfolding one_key_def by blast
qed

lemma no_second_binding_safe:
  assumes "well_kept s" "one_key s" "no_second_binding p ops s"
  shows "renewals_safe p ops s"
  using assms
proof (induction ops arbitrary: s)
  case Nil
  show ?case by simp
next
  case (Cons op ops)
  from perform_effect[OF Cons.prems(1), of p op] have 1: "well_kept (perform p op s)" by simp
  from Cons.prems have 2: "one_key (perform p op s)" by (intro perform_one_key) simp_all
  from Cons.prems have 3: "no_second_binding p ops (perform p op s)" by simp
  have "case renews p op s of None \<Rightarrow> True | Some lease \<Rightarrow> \<not> other_live (op_stamp op) s lease"
    using one_key_safe[OF Cons.prems(1,2), of p op] by (cases "renews p op s") simp_all
  with Cons.IH[OF 1 2 3] show ?case by simp
qed

lemma clock_runs_take: "clock_runs t ops \<Longrightarrow> clock_runs t (take n ops)"
proof (induction ops arbitrary: t n)
  case Nil
  show ?case by simp
next
  case (Cons op ops)
  then show ?case by (cases n) simp_all
qed

lemma renewals_safe_take: "renewals_safe p ops s \<Longrightarrow> renewals_safe p (take n ops) s"
proof (induction ops arbitrary: s n)
  case Nil
  show ?case by simp
next
  case (Cons op ops)
  then show ?case by (cases n) simp_all
qed

lemma list_all_take: "list_all P xs \<Longrightarrow> list_all P (take n xs)"
  by (auto simp: list_all_iff dest: in_set_takeD)

lemma run_tidy:
  assumes "tidy t s" "0 < expireDuration p" "list_all (\<lambda>op. op_nic op \<noteq> []) ops"
    "clock_runs t ops"
  shows "tidy (end_time t ops) (run p ops s)"
  using assms
proof (induction ops arbitrary: t s)
  case Nil
  then show ?case by simp
next
  case (Cons op ops)
  from Cons.prems have "tidy (op_stamp op) (perform p op s)"
    by (intro perform_tidy[of t]) simp_all
  with Cons.IH[of "op_stamp op" "perform p op s"] Cons.prems show ?case by simp
qed

lemma run_single:
  assumes "tidy t s" "single t s" "0 < expireDuration p" "list_all (\<lambda>op. op_nic op \<noteq> []) ops"
    "clock_runs t ops" "renewals_safe p ops s"
  shows "single (end_time t ops) (run p ops s)"
  using assms
proof (induction ops arbitrary: t s)
  case Nil
  then show ?case by simp
next
  case (Cons op ops)
  from Cons.prems have wk: "well_kept s" by (simp add: tidy_def)
  from Cons.prems have 1: "tidy (op_stamp op) (perform p op s)"
    by (intro perform_tidy[of t]) simp_all
  from Cons.prems have 2: "single (op_stamp op) (perform p op s)"
    by (intro perform_single[OF wk, of t]) simp_all
  from Cons.IH[OF 1 2] Cons.prems show ?case by simp
qed

lemma run_unsafe:
  assumes "tidy t s" "0 < expireDuration p" "list_all (\<lambda>op. op_nic op \<noteq> []) ops"
    "clock_runs t ops" "\<not> renewals_safe p ops s"
  shows "\<exists>n \<le> length ops. \<not> no_clash (end_time t (take n ops)) (run p (take n ops) s)"
  using assms
proof (induction ops arbitrary: t s)
  case Nil
  then show ?case by simp
next
  case (Cons op ops)
  from Cons.prems have wk: "well_kept s" by (simp add: tidy_def)
  show ?case
  proof (cases "case renews p op s of None \<Rightarrow> True | Some lease \<Rightarrow> \<not> other_live (op_stamp op) s lease")
    case False
    then obtain L where "renews p op s = Some L" "other_live (op_stamp op) s L"
      by (cases "renews p op s") simp_all
    from perform_clash[OF wk Cons.prems(2) this]
    have "\<not> no_clash (end_time t (take 1 (op # ops))) (run p (take 1 (op # ops)) s)" by simp
    moreover have "1 \<le> length (op # ops)" by simp
    ultimately show ?thesis by blast
  next
    case True
    with Cons.prems have u: "\<not> renewals_safe p ops (perform p op s)" by simp
    from Cons.prems have 1: "tidy (op_stamp op) (perform p op s)"
      by (intro perform_tidy[of t]) simp_all
    from Cons.prems have 3: "list_all (\<lambda>op. op_nic op \<noteq> []) ops" "clock_runs (op_stamp op) ops"
      by simp_all
    from Cons.IH[OF 1 Cons.prems(2) 3 u] obtain n where
      n: "n \<le> length ops"
         "\<not> no_clash (end_time (op_stamp op) (take n ops)) (run p (take n ops) (perform p op s))"
      by blast
    then have "\<not> no_clash (end_time t (take (Suc n) (op # ops))) (run p (take (Suc n) (op # ops)) s)"
      by simp
    moreover from n(1) have "Suc n \<le> length (op # ops)" by simp
    ultimately show ?thesis by blast
  qed
qed

lemma empty_pool_one_key: "empty_pool s \<Longrightarrow> one_key s"
  by (simp add: empty_pool_def one_key_def stored_def)

text \<open>
  C5 (as amended). From an empty pool, with a positive lease duration, hardware
  identifiers that are not empty and a clock that does not run backwards, every sequence
  of \<open>Assign\<close> and \<open>Request\<close> calls leaves every stored record a valid lease, whatever
  requests the store fails to serve. The invariant of the pool holds after every call of
  the sequence if and only if no call renews a lease in the store while another key holds
  a live lease of the same client; a renewal of a lease that has expired is no harm by
  itself. In particular the invariant holds throughout when no call of the sequence is a
  second binding, a \<open>Request\<close> that gives a new address to a client whose earlier leases
  have all lapsed.
\<close>

theorem pool_invariant_preserved:
  assumes "empty_pool s" and "0 < expireDuration p"
    and "list_all (\<lambda>op. op_nic op \<noteq> []) ops"
    and "clock_runs t ops"
  shows "valid_records (run p ops s) \<and>
         ((\<forall>n \<le> length ops. pool_invariant (end_time t (take n ops)) (run p (take n ops) s))
            \<longleftrightarrow> renewals_safe p ops s) \<and>
         (no_second_binding p ops s \<longrightarrow> renewals_safe p ops s)"
proof -
  from empty_pool_tidy[OF assms(1), of t] have t0: "tidy t s" and s0: "single t s" by simp_all
  then have wk0: "well_kept s" by (simp add: tidy_def)
  from tidy_valid_records[OF run_tidy[OF t0 assms(2-4)]] have v: "valid_records (run p ops s)" .
  have a: "pool_invariant (end_time t (take n ops)) (run p (take n ops) s)"
    if r: "renewals_safe p ops s" for n
  proof -
    note h = assms(2) list_all_take[OF assms(3), of n] clock_runs_take[OF assms(4), of n]
    note T = run_tidy[OF t0 h]
    then have wk: "well_kept (run p (take n ops) s)" by (simp add: tidy_def)
    from tidy_valid_records[OF T]
      single_no_clash[OF wk run_single[OF t0 s0 h renewals_safe_take[OF r, of n]]]
    show ?thesis by (simp add: pool_invariant_def)
  qed
  have b: "renewals_safe p ops s"
    if "\<forall>n \<le> length ops. pool_invariant (end_time t (take n ops)) (run p (take n ops) s)"
  proof (rule ccontr)
    assume "\<not> renewals_safe p ops s"
    from run_unsafe[OF t0 assms(2-4) this] that show False
      by (auto simp: pool_invariant_def)
  qed
  have c: "renewals_safe p ops s" if "no_second_binding p ops s"
    using no_second_binding_safe[OF wk0 empty_pool_one_key[OF assms(1)] that] .
  from v a b c show ?thesis by blast
qed

theorem pool_invariant_preserved_witness:
  "empty_pool S1_start \<and> 0 < expireDuration S1_pool \<and>
   list_all (\<lambda>op. op_nic op \<noteq> [])
     [AssignOp ''aa:aa'' [] 0 0, AssignOp ''bb:bb'' [] 5 5, RequestOp ''aa:aa'' 0x0A00000A 60 60,
      AssignOp ''aa:aa'' [] 4000 4000] \<and>
   clock_runs 0
     [AssignOp ''aa:aa'' [] 0 0, AssignOp ''bb:bb'' [] 5 5, RequestOp ''aa:aa'' 0x0A00000A 60 60,
      AssignOp ''aa:aa'' [] 4000 4000] \<and>
   no_second_binding S1_pool
     [AssignOp ''aa:aa'' [] 0 0, AssignOp ''bb:bb'' [] 5 5, RequestOp ''aa:aa'' 0x0A00000A 60 60,
      AssignOp ''aa:aa'' [] 4000 4000] S1_start \<and>
   renews S1_pool (AssignOp ''aa:aa'' [] 4000 4000)
     (run S1_pool
        [AssignOp ''aa:aa'' [] 0 0, AssignOp ''bb:bb'' [] 5 5, RequestOp ''aa:aa'' 0x0A00000A 60 60]
        S1_start) =
     Some \<lparr>Nic = ''aa:aa'', IP = 0x0A00000A, FirstAssigned = 0, LastAssigned = 60, ExpireTime = 3660\<rparr> \<and>
   renewals_safe S1_pool
     [AssignOp ''aa:aa'' [] 0 0, AssignOp ''bb:bb'' [] 5 5, RequestOp ''aa:aa'' 0x0A00000A 60 60,
      AssignOp ''aa:aa'' [] 4000 4000] S1_start \<and>
   valid_records (run S1_pool
     [AssignOp ''aa:aa'' [] 0 0, AssignOp ''bb:bb'' [] 5 5, RequestOp ''aa:aa'' 0x0A00000A 60 60,
      AssignOp ''aa:aa'' [] 4000 4000] S1_start) \<and>
   pool_invariant 4000 (run S1_pool
     [AssignOp ''aa:aa'' [] 0 0, AssignOp ''bb:bb'' [] 5 5, RequestOp ''aa:aa'' 0x0A00000A 60 60,
      AssignOp ''aa:aa'' [] 4000 4000] S1_start)"
proof -
  let ?ops = "[AssignOp ''aa:aa'' [] 0 0, AssignOp ''bb:bb'' [] 5 5, RequestOp ''aa:aa'' 0x0A00000A 60 60,
      AssignOp ''aa:aa'' [] 4000 4000]"
  have e: "empty_pool S1_start" by (simp add: empty_pool_def nodes_of_def S1_start_def)
  have d: "0 < expireDuration S1_pool" by (simp add: S1_pool_def)
  have n: "list_all (\<lambda>op. op_nic op \<noteq> []) ?ops" by simp
  have c: "clock_runs 0 ?ops" by simp
  have b: "no_second_binding S1_pool ?ops S1_start" by code_simp
  have l: "renews S1_pool (AssignOp ''aa:aa'' [] 4000 4000)
     (run S1_pool
        [AssignOp ''aa:aa'' [] 0 0, AssignOp ''bb:bb'' [] 5 5, RequestOp ''aa:aa'' 0x0A00000A 60 60]
        S1_start) =
     Some \<lparr>Nic = ''aa:aa'', IP = 0x0A00000A, FirstAssigned = 0, LastAssigned = 60, ExpireTime = 3660\<rparr>"
    by code_simp
  note th = pool_invariant_preserved[OF e d n c]
  from th have v: "valid_records (run S1_pool ?ops S1_start)" by (rule conjunct1)
  from th b have r: "renewals_safe S1_pool ?ops S1_start" by blast
  with th have "\<forall>n \<le> length ?ops.
      pool_invariant (end_time 0 (take n ?ops)) (run S1_pool (take n ?ops) S1_start)"
    by blast
  then have "pool_invariant (end_time 0 (take (length ?ops) ?ops))
      (run S1_pool (take (length ?ops) ?ops) S1_start)" by blast
  then have i: "pool_invariant 4000 (run S1_pool ?ops S1_start)" by simp
  from e d n c b l r v i show ?thesis by (intro conjI)
qed

text \<open>
  C5 without the amendment does not hold. With leases of one hour: \<open>Assign("aa:aa")\<close>
  at time 0 binds \<open>10.0.0.10\<close>; at 3601 that lease has expired and
  \<open>Request("aa:aa", 10.0.0.12)\<close> binds \<open>10.0.0.12\<close> as well; at 3602
  \<open>Request("aa:aa", 10.0.0.10)\<close> renews the first lease while the second is live. Two
  keys now hold live leases of \<open>aa:aa\<close>. And a clock that runs backwards breaks the
  validity of a record: \<open>Assign("aa:aa")\<close> at time 100 and again at time 50 leaves a
  lease first assigned at 100 and last assigned at 50.
\<close>

theorem pool_invariant_broken:
  "empty_pool S1_start \<and> 0 < expireDuration S1_pool \<and>
   list_all (\<lambda>op. op_nic op \<noteq> [])
     [AssignOp ''aa:aa'' [] 0 0, RequestOp ''aa:aa'' 0x0A00000C 3601 3601,
      RequestOp ''aa:aa'' 0x0A00000A 3602 3602] \<and>
   clock_runs 0
     [AssignOp ''aa:aa'' [] 0 0, RequestOp ''aa:aa'' 0x0A00000C 3601 3601,
      RequestOp ''aa:aa'' 0x0A00000A 3602 3602] \<and>
   \<not> pool_invariant 3602
       (run S1_pool
          [AssignOp ''aa:aa'' [] 0 0, RequestOp ''aa:aa'' 0x0A00000C 3601 3601,
           RequestOp ''aa:aa'' 0x0A00000A 3602 3602] S1_start) \<and>
   \<not> clock_runs 0 [AssignOp ''aa:aa'' [] 100 100, AssignOp ''aa:aa'' [] 50 50] \<and>
   \<not> valid_records
       (run S1_pool [AssignOp ''aa:aa'' [] 100 100, AssignOp ''aa:aa'' [] 50 50] S1_start)"
  by code_simp
end
